theory Spec2Isabelle
  imports Main
begin

section \<open>Values, teardowns and the object store\<close>

text \<open>
  Subscription objects and function objects are compared by reference in the source
  (\<^verbatim>\<open>indexOf\<close>, \<^verbatim>\<open>===\<close>, \<^verbatim>\<open>includes\<close>), so both are addressed by identities.
\<close>

type_synonym sid = nat
type_synonym fid = nat
type_synonym vid = nat
type_synonym aid = nat

text \<open>
  JavaScript values as far as the two source files look at them: payloads of messages,
  thrown values, and objects whose \<^verbatim>\<open>unsubscribe\<close> property is a function or is not.

  Modelled from the spec: the class \<^verbatim>\<open>UnsubscriptionError\<close> is defined in
  \<^verbatim>\<open>util/UnsubscriptionError.ts\<close>, outside the two files; the specification describes it
  as the container of the sequence of errors raised by one disposal pass, and
  \<^verbatim>\<open>unsubscribe\<close> reads that sequence as its \<^verbatim>\<open>errors\<close> field. Its constructor is taken
  to keep the array it is given, not a copy.

  \<^verbatim>\<open>unsubscribe\<close> keeps the \<^verbatim>\<open>errors\<close> array of an error it has caught and pushes into it, so
  it matters whether anything else refers to that array. An instance that is constructed
  where it is thrown, and that nothing else refers to, is \<open>UnsubscriptionError es\<close>, given by
  the elements of its array. An instance that user code keeps, and may throw again, is
  \<open>KeptUnsubscriptionError a\<close>, given by the identity \<open>a\<close> of its array in the store.
\<close>

datatype val =
    Undefined
  | Null
  | Bool bool
  | Num int
  | Str string
  | Error string
  | TypeError string
  | UnsubscriptionError "val list"
  | KeptUnsubscriptionError aid
  | Object "fid option"

text \<open>
  \<^verbatim>\<open>TeardownLogic\<close> without \<^verbatim>\<open>void\<close>: a function, a \<^verbatim>\<open>Subscription\<close>, or some other
  object with an \<^verbatim>\<open>unsubscribe\<close> method (named by that method).
\<close>

datatype teardown = Fn fid | Sub sid | Unsubscribable fid

text \<open>
  What the body of a user function may do to the subscriptions: throw a value (one it
  constructs there, or an error it keeps), call one of the three public methods, or, as the
  closure of \<^verbatim>\<open>symbolObservableSource\<close> does, unsubscribe the handle held in a captured
  variable when that handle has a callable \<^verbatim>\<open>unsubscribe\<close>.
\<close>

datatype cmd =
    Throw val
  | CallUnsubscribe sid
  | CallAdd sid "teardown option"
  | CallRemove sid teardown
  | UnsubscribeHandle vid

record subscription =
  closed :: bool
  singleParent :: "sid option"
  parents :: "sid list option"
  teardowns :: "teardown list option"
  ctorUnsubscribe :: bool
  unsubscribe_action :: "fid option"

text \<open>
  The trace is the observable history: which function objects were invoked and which
  subscriptions had \<^verbatim>\<open>closed\<close> assigned \<^verbatim>\<open>true\<close>, in order. \<open>arrays\<close> holds the \<^verbatim>\<open>errors\<close>
  arrays of the kept \<^verbatim>\<open>UnsubscriptionError\<close> instances.
\<close>

datatype event = Closed sid | Called fid

record heap =
  subs :: "sid \<Rightarrow> subscription"
  vars :: "vid \<Rightarrow> val"
  arrays :: "aid \<Rightarrow> val list"
  trace :: "event list"

text \<open>
  The outcome of a call: \<open>None\<close> when it does not return within the given call depth,
  \<open>Some (None, h)\<close> when it returns normally, \<open>Some (Some e, h)\<close> when it throws \<open>e\<close>.
\<close>

type_synonym outcome = "(val option \<times> heap) option"

definition upd :: "sid \<Rightarrow> (subscription \<Rightarrow> subscription) \<Rightarrow> heap \<Rightarrow> heap" where
  "upd s f h = h\<lparr>subs := (subs h)(s := f (subs h s))\<rparr>"

definition new_Subscription :: "fid option \<Rightarrow> subscription" where
  "new_Subscription unsub =
     \<lparr>closed = False, singleParent = None, parents = None, teardowns = None,
      ctorUnsubscribe = (unsub \<noteq> None), unsubscribe_action = unsub\<rparr>"

definition EMPTY :: subscription where
  "EMPTY = (new_Subscription None)\<lparr>closed := True\<rparr>"

section \<open>Subscription: the parent bookkeeping\<close>

definition hasParent :: "subscription \<Rightarrow> sid \<Rightarrow> bool" where
  "hasParent this parent =
     (singleParent this = Some parent \<or>
      (case parents this of Some ps \<Rightarrow> parent \<in> set ps | None \<Rightarrow> False))"

definition addParent :: "sid \<Rightarrow> subscription \<Rightarrow> subscription" where
  "addParent parent this =
     (case singleParent this of
        Some sp \<Rightarrow> this\<lparr>parents := Some [sp, parent], singleParent := None\<rparr>
      | None \<Rightarrow>
         (case parents this of
            Some ps \<Rightarrow> this\<lparr>parents := Some (ps @ [parent])\<rparr>
          | None \<Rightarrow> this\<lparr>singleParent := Some parent\<rparr>))"

definition removeParent :: "sid \<Rightarrow> subscription \<Rightarrow> subscription" where
  "removeParent parent this =
     (case singleParent this of
        Some sp \<Rightarrow> (if sp = parent then this\<lparr>singleParent := None\<rparr> else this)
      | None \<Rightarrow>
         (case parents this of
            Some ps \<Rightarrow> this\<lparr>parents := Some (remove1 parent ps)\<rparr>
          | None \<Rightarrow> this))"

definition remove :: "sid \<Rightarrow> teardown \<Rightarrow> heap \<Rightarrow> heap" where
  "remove this td h =
     (let h1 = (case teardowns (subs h this) of
                  Some ts \<Rightarrow> upd this (\<lambda>s. s\<lparr>teardowns := Some (remove1 td ts)\<rparr>) h
                | None \<Rightarrow> h)
      in case td of
           Sub c \<Rightarrow> upd c (removeParent this) h1
         | _ \<Rightarrow> h1)"

text \<open>The first block of \<^verbatim>\<open>unsubscribe\<close>: remove this subscription from its parents.\<close>

definition detach :: "sid \<Rightarrow> heap \<Rightarrow> heap" where
  "detach this h =
     (case singleParent (subs h this) of
        Some p \<Rightarrow> remove p (Sub this) (upd this (\<lambda>s. s\<lparr>singleParent := None\<rparr>) h)
      | None \<Rightarrow>
         (case parents (subs h this) of
            Some ps \<Rightarrow>
              fold (\<lambda>parent. remove parent (Sub this)) ps (upd this (\<lambda>s. s\<lparr>parents := None\<rparr>) h)
          | None \<Rightarrow> h))"

section \<open>Subscription: unsubscribe and add\<close>

text \<open>
  The array that the local variable \<^verbatim>\<open>errors\<close> refers to, when it refers to one: an array
  made by this call or taken from an error that nothing else refers to, given by its
  elements, or the array of a kept error.
\<close>

datatype array = Fresh "val list" | Kept aid

definition elements :: "heap \<Rightarrow> array \<Rightarrow> val list" where
  "elements h arr = (case arr of Fresh es \<Rightarrow> es | Kept a \<Rightarrow> arrays h a)"

text \<open>
  \<^verbatim>\<open>e instanceof UnsubscriptionError ? e.errors : [e]\<close>: the array of the error itself,
  not a copy.
\<close>

definition flatten_error :: "val \<Rightarrow> array" where
  "flatten_error e =
     (case e of
        UnsubscriptionError es \<Rightarrow> Fresh es
      | KeptUnsubscriptionError a \<Rightarrow> Kept a
      | _ \<Rightarrow> Fresh [e])"

text \<open>
  The \<^verbatim>\<open>catch\<close> block of the teardown loop: \<^verbatim>\<open>errors = errors ?? []\<close>; then, for an
  \<^verbatim>\<open>UnsubscriptionError\<close>, a new array of the elements of both, and for any other value a
  \<^verbatim>\<open>push\<close> into the array that \<^verbatim>\<open>errors\<close> refers to.
\<close>

definition collect :: "array option \<Rightarrow> val \<Rightarrow> heap \<Rightarrow> array option \<times> heap" where
  "collect errors err h =
     (let arr = (case errors of None \<Rightarrow> Fresh [] | Some arr \<Rightarrow> arr) in
      case err of
        UnsubscriptionError es \<Rightarrow> (Some (Fresh (elements h arr @ es)), h)
      | KeptUnsubscriptionError a \<Rightarrow> (Some (Fresh (elements h arr @ arrays h a)), h)
      | _ \<Rightarrow>
         (case arr of
            Fresh es \<Rightarrow> (Some (Fresh (es @ [err])), h)
          | Kept a \<Rightarrow> (Some (Kept a), h\<lparr>arrays := (arrays h)(a := arrays h a @ [err])\<rparr>)))"

text \<open>
  \<^verbatim>\<open>typeof teardown === 'function' ? teardown() : teardown.unsubscribe()\<close>, given how a
  function object and a subscription's \<^verbatim>\<open>unsubscribe\<close> are run.
\<close>

definition execute ::
  "(fid \<Rightarrow> heap \<Rightarrow> outcome) \<Rightarrow> (sid \<Rightarrow> heap \<Rightarrow> outcome) \<Rightarrow> teardown \<Rightarrow> heap \<Rightarrow> outcome" where
  "execute callf unsub td h =
     (case td of
        Fn f \<Rightarrow> callf f h
      | Sub c \<Rightarrow> unsub c h
      | Unsubscribable f \<Rightarrow> callf f h)"

text \<open>The loop \<^verbatim>\<open>for (const teardown of _teardowns)\<close> with its \<^verbatim>\<open>try\<close>/\<^verbatim>\<open>catch\<close>.\<close>

fun run_teardowns ::
  "(teardown \<Rightarrow> heap \<Rightarrow> outcome) \<Rightarrow> teardown list \<Rightarrow> array option \<Rightarrow> heap
     \<Rightarrow> (array option \<times> heap) option" where
  "run_teardowns ex [] errors h = Some (errors, h)"
| "run_teardowns ex (td # tds) errors h =
     (case ex td h of
        None \<Rightarrow> None
      | Some (None, h') \<Rightarrow> run_teardowns ex tds errors h'
      | Some (Some err, h') \<Rightarrow>
         (case collect errors err h' of (errors', h'') \<Rightarrow> run_teardowns ex tds errors' h''))"

text \<open>The statements of a function body in sequence; a throw ends the body.\<close>

fun run_cmds :: "(cmd \<Rightarrow> heap \<Rightarrow> outcome) \<Rightarrow> cmd list \<Rightarrow> heap \<Rightarrow> outcome" where
  "run_cmds ex [] h = Some (None, h)"
| "run_cmds ex (c # cs) h =
     (case ex c h of
        None \<Rightarrow> None
      | Some (None, h') \<Rightarrow> run_cmds ex cs h'
      | Some (Some err, h') \<Rightarrow> Some (Some err, h'))"

definition run_cmd ::
  "(sid \<Rightarrow> heap \<Rightarrow> outcome) \<Rightarrow> (sid \<Rightarrow> teardown option \<Rightarrow> heap \<Rightarrow> outcome) \<Rightarrow>
   (fid \<Rightarrow> heap \<Rightarrow> outcome) \<Rightarrow> cmd \<Rightarrow> heap \<Rightarrow> outcome" where
  "run_cmd unsub addf callf c h =
     (case c of
        Throw e \<Rightarrow> Some (Some e, h)
      | CallUnsubscribe s \<Rightarrow> unsub s h
      | CallAdd s td \<Rightarrow> addf s td h
      | CallRemove s td \<Rightarrow> Some (None, remove s td h)
      | UnsubscribeHandle x \<Rightarrow>
         (case vars h x of
            Object (Some f) \<Rightarrow> callf f h
          | _ \<Rightarrow> Some (None, h)))"

text \<open>
  \<^verbatim>\<open>this._teardowns = this._teardowns ?? []; this._teardowns.push(teardown)\<close>
\<close>

definition push :: "sid \<Rightarrow> teardown \<Rightarrow> heap \<Rightarrow> heap" where
  "push this td h =
     upd this (\<lambda>s. s\<lparr>teardowns :=
        Some ((case teardowns s of None \<Rightarrow> [] | Some ts \<Rightarrow> ts) @ [td])\<rparr>) h"

text \<open>\<^verbatim>\<open>this.closed = true\<close>, recorded in the trace.\<close>

definition mark_closed :: "sid \<Rightarrow> heap \<Rightarrow> heap" where
  "mark_closed this h =
     (upd this (\<lambda>s. s\<lparr>closed := True\<rparr>) h)\<lparr>trace := trace h @ [Closed this]\<rparr>"

text \<open>
  The block \<^verbatim>\<open>if (isFunction(_unsubscribe)) { ... }\<close>: the stored function is forgotten when
  it came from the constructor, then called; what it throws starts the error list.
\<close>

definition release ::
  "(fid \<Rightarrow> heap \<Rightarrow> outcome) \<Rightarrow> sid \<Rightarrow> heap \<Rightarrow> (array option \<times> heap) option" where
  "release callf this h =
     (case unsubscribe_action (subs h this) of
        None \<Rightarrow> Some (None, h)
      | Some f \<Rightarrow>
         (case callf f (if ctorUnsubscribe (subs h this)
                        then upd this (\<lambda>s. s\<lparr>unsubscribe_action := None\<rparr>) h else h) of
            None \<Rightarrow> None
          | Some (None, h') \<Rightarrow> Some (None, h')
          | Some (Some e, h') \<Rightarrow> Some (Some (flatten_error e), h')))"

text \<open>
  The block from \<^verbatim>\<open>const { _teardowns } = this\<close> to the end of the loop: the field is
  cleared first, the loop runs over the list that was read.
\<close>

definition teardown_pass ::
  "(teardown \<Rightarrow> heap \<Rightarrow> outcome) \<Rightarrow> sid \<Rightarrow> array option \<Rightarrow> heap
     \<Rightarrow> (array option \<times> heap) option" where
  "teardown_pass ex this errors h =
     (case teardowns (subs h this) of
        None \<Rightarrow> Some (errors, upd this (\<lambda>s. s\<lparr>teardowns := None\<rparr>) h)
      | Some tds \<Rightarrow> run_teardowns ex tds errors (upd this (\<lambda>s. s\<lparr>teardowns := None\<rparr>) h))"

text \<open>
  \<^verbatim>\<open>if (errors) { throw new UnsubscriptionError(errors) }\<close>; an empty array is truthy. The
  new error holds the array it is given, so over the array of a kept error it is that error
  as far as \<^verbatim>\<open>unsubscribe\<close> can tell.
\<close>

definition throw_collected :: "array option \<Rightarrow> val option" where
  "throw_collected errors =
     (case errors of
        None \<Rightarrow> None
      | Some (Fresh es) \<Rightarrow> Some (UnsubscriptionError es)
      | Some (Kept a) \<Rightarrow> Some (KeptUnsubscriptionError a))"

text \<open>
  The methods that run user code. \<open>fns\<close> gives the body of every function object. The
  second argument bounds the depth of nested calls (method or function invocations); a call
  that needs more yields \<open>None\<close>.
\<close>

fun unsubscribe :: "(fid \<Rightarrow> cmd list) \<Rightarrow> nat \<Rightarrow> sid \<Rightarrow> heap \<Rightarrow> outcome"
  and add :: "(fid \<Rightarrow> cmd list) \<Rightarrow> nat \<Rightarrow> sid \<Rightarrow> teardown option \<Rightarrow> heap \<Rightarrow> outcome"
  and call_fn :: "(fid \<Rightarrow> cmd list) \<Rightarrow> nat \<Rightarrow> fid \<Rightarrow> heap \<Rightarrow> outcome" where
  "unsubscribe fns 0 this h = None"
| "unsubscribe fns (Suc n) this h =
     (if closed (subs h this) then Some (None, h)
      else
        case release (call_fn fns n) this (detach this (mark_closed this h)) of
          None \<Rightarrow> None
        | Some (errors, h2) \<Rightarrow>
           (case teardown_pass (execute (call_fn fns n) (unsubscribe fns n)) this errors h2 of
              None \<Rightarrow> None
            | Some (errors', h3) \<Rightarrow> Some (throw_collected errors', h3)))"
| "add fns 0 this td h = None"
| "add fns (Suc n) this td h =
     (case td of
        None \<Rightarrow> Some (None, h)
      | Some t \<Rightarrow>
         if t = Sub this then Some (None, h)
         else if closed (subs h this)
         then execute (call_fn fns n) (unsubscribe fns n) t h
         else
           (case t of
              Sub c \<Rightarrow>
                if closed (subs h c) \<or> hasParent (subs h c) this then Some (None, h)
                else Some (None, push this t (upd c (addParent this) h))
            | _ \<Rightarrow> Some (None, push this t h)))"
| "call_fn fns 0 f h = None"
| "call_fn fns (Suc n) f h =
     run_cmds (run_cmd (unsubscribe fns n) (add fns n) (call_fn fns n)) (fns f)
       (h\<lparr>trace := trace h @ [Called f]\<rparr>)"

section \<open>The source protocol\<close>

text \<open>
  Modelled from the spec: the enumeration \<^verbatim>\<open>FOType\<close> is declared in \<^verbatim>\<open>types.ts\<close>, outside
  the two files; the specification gives its four message types.
\<close>

datatype fotype = SUBSCRIBE | NEXT | ERROR | COMPLETE

type_synonym msg = "fotype \<times> val"

text \<open>
  A sink is consumer code: called with a message type, a payload and the token, it may
  change the store, throw, or not return.
\<close>

type_synonym sink = "fotype \<Rightarrow> val \<Rightarrow> sid \<Rightarrow> heap \<Rightarrow> outcome"

text \<open>
  The history of one subscription: every message handed to the sink, in order, each with
  the value the token's \<^verbatim>\<open>closed\<close> flag had at the moment of the call. It is kept beside
  the outcome, so it is known also for a run that does not return.
\<close>

type_synonym delivery = "msg \<times> bool"

type_synonym run = "delivery list \<times> outcome"

definition send :: "sink \<Rightarrow> fotype \<Rightarrow> val \<Rightarrow> sid \<Rightarrow> delivery list \<Rightarrow> heap \<Rightarrow> run" where
  "send snk t v subscription log h =
     (log @ [((t, v), closed (subs h subscription))], snk t v subscription h)"

definition messages :: "delivery list \<Rightarrow> msg list" where
  "messages log = map fst log"

definition terminal :: "msg \<Rightarrow> bool" where
  "terminal m = (fst m = ERROR \<or> fst m = COMPLETE)"

section \<open>promiseSource\<close>

text \<open>
  What a \<^verbatim>\<open>PromiseLike\<close> does with the two callbacks given to its \<^verbatim>\<open>then\<close>: the calls it
  makes, in order, each with the value it passes. A promise makes at most one call; any
  other object with a \<^verbatim>\<open>then\<close> method may make several. \<open>later\<close> is what the rest of the
  program has done to the store between two calls. A call that throws or does not return
  ends the run: the exception does not reach the caller of the source.
\<close>

datatype 'a settlement = Fulfil 'a | Reject val

type_synonym 'a thenable = "'a settlement list"

definition promise_onFulfilled :: "sink \<Rightarrow> sid \<Rightarrow> val \<Rightarrow> delivery list \<Rightarrow> heap \<Rightarrow> run" where
  "promise_onFulfilled snk subscription v log h =
     (if \<not> closed (subs h subscription)
      then (case send snk NEXT v subscription log h of
              (log', Some (None, h')) \<Rightarrow> send snk COMPLETE Undefined subscription log' h'
            | r \<Rightarrow> r)
      else (log, Some (None, h)))"

definition promise_onRejected :: "sink \<Rightarrow> sid \<Rightarrow> val \<Rightarrow> delivery list \<Rightarrow> heap \<Rightarrow> run" where
  "promise_onRejected snk subscription err log h = send snk ERROR err subscription log h"

fun then_calls ::
  "('a \<Rightarrow> delivery list \<Rightarrow> heap \<Rightarrow> run) \<Rightarrow> (val \<Rightarrow> delivery list \<Rightarrow> heap \<Rightarrow> run) \<Rightarrow>
   (heap \<Rightarrow> heap) \<Rightarrow> 'a thenable \<Rightarrow> delivery list \<Rightarrow> heap \<Rightarrow> run" where
  "then_calls onFulfilled onRejected later [] log h = (log, Some (None, h))"
| "then_calls onFulfilled onRejected later (c # cs) log h =
     (case (case c of
              Fulfil v \<Rightarrow> onFulfilled v log (later h)
            | Reject err \<Rightarrow> onRejected err log (later h)) of
        (log', Some (None, h')) \<Rightarrow> then_calls onFulfilled onRejected later cs log' h'
      | r \<Rightarrow> r)"

definition promiseSource ::
  "val thenable \<Rightarrow> (heap \<Rightarrow> heap) \<Rightarrow> fotype \<Rightarrow> sink \<Rightarrow> sid \<Rightarrow> delivery list \<Rightarrow> heap \<Rightarrow> run" where
  "promiseSource p later t snk subscription log h =
     (if t = SUBSCRIBE
      then then_calls (promise_onFulfilled snk subscription) (promise_onRejected snk subscription)
             later p log h
      else (log, Some (None, h)))"

section \<open>iterableSource\<close>

text \<open>
  A call into code of the iterable: it may change the store, and it returns a value
  (\<open>Inr\<close>), throws (\<open>Inl\<close>), or does not return (\<open>None\<close>).
\<close>

type_synonym 'a user_call = "heap \<Rightarrow> ((val + 'a) \<times> heap) option"

text \<open>
  An iterable is its \<^verbatim>\<open>[Symbol.iterator]()\<close>, which gives the iterator's first state, and
  the iterator's \<^verbatim>\<open>next()\<close>, which yields a value and moves on or reports \<^verbatim>\<open>done\<close>.
\<close>

datatype 'it iterator_result = Yield val 'it | Done

record 'it iterable =
  iterator :: "'it user_call"
  iter_next :: "'it \<Rightarrow> 'it iterator_result user_call"

text \<open>
  The \<^verbatim>\<open>while (true)\<close> loop and the \<^verbatim>\<open>COMPLETE\<close> after it; the first argument bounds the
  number of iterations.
\<close>

fun iterable_loop ::
  "nat \<Rightarrow> ('it \<Rightarrow> 'it iterator_result user_call) \<Rightarrow> sink \<Rightarrow> sid \<Rightarrow> 'it \<Rightarrow> delivery list \<Rightarrow>
   heap \<Rightarrow> run" where
  "iterable_loop 0 nxt snk subscription it log h = (log, None)"
| "iterable_loop (Suc n) nxt snk subscription it log h =
     (if closed (subs h subscription) then (log, Some (None, h))
      else
        case nxt it h of
          None \<Rightarrow> (log, None)
        | Some (Inl e, h1) \<Rightarrow> (log, Some (Some e, h1))
        | Some (Inr Done, h1) \<Rightarrow> send snk COMPLETE Undefined subscription log h1
        | Some (Inr (Yield v it'), h1) \<Rightarrow>
           (case send snk NEXT v subscription log h1 of
              (log', Some (None, h')) \<Rightarrow> iterable_loop n nxt snk subscription it' log' h'
            | r \<Rightarrow> r))"

definition iterableSource ::
  "nat \<Rightarrow> 'it iterable \<Rightarrow> fotype \<Rightarrow> sink \<Rightarrow> sid \<Rightarrow> delivery list \<Rightarrow> heap \<Rightarrow> run" where
  "iterableSource n input t snk subscription log h =
     (if t = SUBSCRIBE
      then
        case iterator input h of
          None \<Rightarrow> (log, None)
        | Some (Inl e, h1) \<Rightarrow> (log, Some (Some e, h1))
        | Some (Inr it, h1) \<Rightarrow> iterable_loop n (iter_next input) snk subscription it log h1
      else (log, Some (None, h)))"

text \<open>
  The iterator of an array, and the iterable of the integers from \<open>k\<close> on: neither
  touches the store.
\<close>

definition array_iterable :: "val list \<Rightarrow> val list iterable" where
  "array_iterable xs =
     \<lparr>iterator = (\<lambda>h. Some (Inr xs, h)),
      iter_next = (\<lambda>ys h. Some (Inr (case ys of [] \<Rightarrow> Done | y # ys' \<Rightarrow> Yield y ys'), h))\<rparr>"


section \<open>symbolObservableSource\<close>

text \<open>\<^verbatim>\<open>!v\<close> is the negation of this.\<close>

fun truthy :: "val \<Rightarrow> bool" where
  "truthy Undefined = False"
| "truthy Null = False"
| "truthy (Bool b) = b"
| "truthy (Num n) = (n \<noteq> 0)"
| "truthy (Str s) = (s \<noteq> [])"
| "truthy v = True"

text \<open>
  What the external stream does with the observer it is given: the notifications it sends
  while \<^verbatim>\<open>subscribe\<close> runs, the handle \<^verbatim>\<open>subscribe\<close> returns, and the notifications it sends
  in later turns.
\<close>

datatype notification = ONext val | OError val | OComplete

record observable_like =
  during_subscribe :: "notification list"
  handle :: val
  afterwards :: "notification list"

text \<open>
  What \<^verbatim>\<open>input[Symbol.observable]()\<close> returned: a value with no callable \<^verbatim>\<open>subscribe\<close>
  property, or an object that has one.
\<close>

datatype conversion = Plain val | ObservableLike observable_like

fun is_falsy :: "conversion \<Rightarrow> bool" where
  "is_falsy (Plain v) = (\<not> truthy v)"
| "is_falsy (ObservableLike ob) = False"

text \<open>Reading a property of \<^verbatim>\<open>undefined\<close> or \<^verbatim>\<open>null\<close> throws a \<^verbatim>\<open>TypeError\<close>.\<close>

fun is_nullish :: "conversion \<Rightarrow> bool" where
  "is_nullish (Plain v) = (v = Undefined \<or> v = Null)"
| "is_nullish (ObservableLike ob) = False"

text \<open>The observer object handed to \<^verbatim>\<open>obs.subscribe\<close>: each method forwards to the sink.\<close>

fun observer :: "sink \<Rightarrow> sid \<Rightarrow> notification \<Rightarrow> delivery list \<Rightarrow> heap \<Rightarrow> run" where
  "observer snk subscription (ONext v) log h = send snk NEXT v subscription log h"
| "observer snk subscription (OError err) log h = send snk ERROR err subscription log h"
| "observer snk subscription OComplete log h = send snk COMPLETE Undefined subscription log h"

text \<open>
  The external stream calling the observer for each of its notifications; an exception
  of the sink leaves through the external stream's caller.
\<close>

fun notify :: "sink \<Rightarrow> sid \<Rightarrow> notification list \<Rightarrow> delivery list \<Rightarrow> heap \<Rightarrow> run" where
  "notify snk subscription [] log h = (log, Some (None, h))"
| "notify snk subscription (e # es) log h =
     (case observer snk subscription e log h of
        (log', Some (None, h')) \<Rightarrow> notify snk subscription es log' h'
      | r \<Rightarrow> r)"

text \<open>
  \<open>k\<close> is the identity of the closure passed to \<^verbatim>\<open>subs.add\<close> and \<open>x\<close> the variable
  \<^verbatim>\<open>subscription\<close> it captures; the closure's body in \<open>fns\<close> is \<open>[UnsubscribeHandle x]\<close>.
\<close>

definition symbolObservableSource ::
  "(fid \<Rightarrow> cmd list) \<Rightarrow> nat \<Rightarrow> fid \<Rightarrow> vid \<Rightarrow> conversion \<Rightarrow> (heap \<Rightarrow> heap) \<Rightarrow>
   fotype \<Rightarrow> sink \<Rightarrow> sid \<Rightarrow> delivery list \<Rightarrow> heap \<Rightarrow> run" where
  "symbolObservableSource fns n k x obs later t snk subscription log h =
     (if t = SUBSCRIBE
      then
        case (if is_falsy obs
              then send snk ERROR
                     (Error ''invalid Symbol.observable implementation, observable not returned'')
                     subscription log h
              else (log, Some (None, h))) of
          (log1, Some (None, h1)) \<Rightarrow>
            (if is_nullish obs
             then (log1, Some (Some (TypeError ''cannot read property subscribe''), h1))
             else
               case obs of
                 Plain v \<Rightarrow>
                   send snk ERROR
                     (Error ''invalid Symbol.observable implementation, no subscribe method on returned value'')
                     subscription log1 h1
               | ObservableLike ob \<Rightarrow>
                  (case add fns n subscription (Some (Fn k))
                          (h1\<lparr>vars := (vars h1)(x := Undefined)\<rparr>) of
                     None \<Rightarrow> (log1, None)
                   | Some (Some e, h2) \<Rightarrow> (log1, Some (Some e, h2))
                   | Some (None, h2) \<Rightarrow>
                      (case notify snk subscription (during_subscribe ob) log1 h2 of
                         (log3, Some (None, h3)) \<Rightarrow>
                           notify snk subscription (afterwards ob) log3
                             (later (h3\<lparr>vars := (vars h3)(x := handle ob)\<rparr>))
                       | r \<Rightarrow> r)))
        | r \<Rightarrow> r
      else (log, Some (None, h)))"

section \<open>asyncIterableSource\<close>

text \<open>
  One \<^verbatim>\<open>ai.next()\<close> returns a \<^verbatim>\<open>PromiseLike\<close> of an iterator result: a value and the
  iterator's next state, or \<^verbatim>\<open>done\<close>.
\<close>

datatype 'it async_result = AsyncYield val 'it | AsyncDone

record 'it async_iterable =
  async_iterator :: 'it
  async_next :: "'it \<Rightarrow> 'it async_result thenable"

text \<open>
  \<^verbatim>\<open>getNextValue\<close> and the calls it starts; the first argument bounds their nesting. The
  calls that the object returned by the next \<^verbatim>\<open>ai.next()\<close> makes are taken before the
  remaining ones of the present object; when every \<^verbatim>\<open>ai.next()\<close> returns a promise there is
  at most one call for each and no other order.
\<close>

fun getNextValue ::
  "nat \<Rightarrow> ('it \<Rightarrow> 'it async_result thenable) \<Rightarrow> (heap \<Rightarrow> heap) \<Rightarrow> sink \<Rightarrow> sid \<Rightarrow> 'it \<Rightarrow>
   delivery list \<Rightarrow> heap \<Rightarrow> run" where
  "getNextValue 0 nxt later snk subscription it log h = (log, None)"
| "getNextValue (Suc n) nxt later snk subscription it log h =
     then_calls
       (\<lambda>result log h.
          case result of
            AsyncDone \<Rightarrow> send snk COMPLETE Undefined subscription log h
          | AsyncYield v it' \<Rightarrow>
             (case send snk NEXT v subscription log h of
                (log', Some (None, h')) \<Rightarrow> getNextValue n nxt later snk subscription it' log' h'
              | r \<Rightarrow> r))
       (\<lambda>err log h. send snk ERROR err subscription log h)
       later (nxt it) log h"

definition asyncIterableSource ::
  "nat \<Rightarrow> 'it async_iterable \<Rightarrow> (heap \<Rightarrow> heap) \<Rightarrow> fotype \<Rightarrow> sink \<Rightarrow> sid \<Rightarrow>
   delivery list \<Rightarrow> heap \<Rightarrow> run" where
  "asyncIterableSource n input later t snk subscription log h =
     (if t = SUBSCRIBE
      then getNextValue n (async_next input) later snk subscription (async_iterator input) log h
      else (log, Some (None, h)))"

section \<open>fromSource\<close>

text \<open>
  The six shape tests are imported by the source file and defined elsewhere; they are
  parameters here. The result names the adapter that \<^verbatim>\<open>fromSource\<close> applies to the input;
  \<^verbatim>\<open>ofSource\<close>, the adapter of array-like inputs, is imported as well and appears by name
  only.
\<close>

record 'i guards =
  isObservable :: "'i \<Rightarrow> bool"
  isPromiseLike :: "'i \<Rightarrow> bool"
  isArrayLike :: "'i \<Rightarrow> bool"
  isIterable :: "'i \<Rightarrow> bool"
  isInteropObservable :: "'i \<Rightarrow> bool"
  isAsyncIterable :: "'i \<Rightarrow> bool"

datatype 'i source =
    PassThrough 'i
  | PromiseSource 'i
  | OfSource 'i
  | IterableSource 'i
  | SymbolObservableSource 'i
  | AsyncIterableSource 'i

definition fromSource :: "'i guards \<Rightarrow> 'i \<Rightarrow> val + 'i source" where
  "fromSource g input =
     (if isObservable g input then Inr (PassThrough input)
      else if isPromiseLike g input then Inr (PromiseSource input)
      else if isArrayLike g input then Inr (OfSource input)
      else if isIterable g input then Inr (IterableSource input)
      else if isInteropObservable g input then Inr (SymbolObservableSource input)
      else if isAsyncIterable g input then Inr (AsyncIterableSource input)
      else Inl (Error ''Unable to convert from input to Observable source''))"

section \<open>Primitive updates of the store\<close>

text \<open>
  Every assignment the methods of \<^verbatim>\<open>Subscription\<close> make to the store, one rule each, with
  the guard under which the method makes it; the last is the \<^verbatim>\<open>push\<close> into the array of a
  kept error. A call that returns has gone from its first
  store to its last through such updates only (\<open>sound_all\<close> below), so a property kept by
  each of them is kept by every call, whatever user code runs in between.
\<close>

inductive step :: "heap \<Rightarrow> heap \<Rightarrow> bool" where
  step_close: "\<not> closed (subs h s) \<Longrightarrow> step h (mark_closed s h)"
| step_single: "step h (upd s (\<lambda>x. x\<lparr>singleParent := None\<rparr>) h)"
| step_parents: "step h (upd s (\<lambda>x. x\<lparr>parents := None\<rparr>) h)"
| step_removeParent: "step h (upd s (removeParent p) h)"
| step_remove1:
    "teardowns (subs h s) = Some ts \<Longrightarrow>
     step h (upd s (\<lambda>x. x\<lparr>teardowns := Some (remove1 td ts)\<rparr>) h)"
| step_action: "step h (upd s (\<lambda>x. x\<lparr>unsubscribe_action := None\<rparr>) h)"
| step_teardowns: "step h (upd s (\<lambda>x. x\<lparr>teardowns := None\<rparr>) h)"
| step_called: "step h (h\<lparr>trace := trace h @ [Called f]\<rparr>)"
| step_addParent: "\<not> closed (subs h c) \<Longrightarrow> step h (upd c (addParent p) h)"
| step_push: "\<not> closed (subs h s) \<Longrightarrow> step h (push s td h)"
| step_collect: "step h (h\<lparr>arrays := (arrays h)(a := arrays h a @ [e])\<rparr>)"

definition sound :: "('a \<Rightarrow> heap \<Rightarrow> outcome) \<Rightarrow> bool" where
  "sound ex = (\<forall>a h r h'. ex a h = Some (r, h') \<longrightarrow> step\<^sup>*\<^sup>* h h')"

text \<open>The number of teardowns a subscription holds.\<close>

definition pending :: "subscription \<Rightarrow> nat" where
  "pending s = (case teardowns s of None \<Rightarrow> 0 | Some ts \<Rightarrow> length ts)"

text \<open>The events a call has added to the trace.\<close>

definition new_events :: "heap \<Rightarrow> heap \<Rightarrow> event list" where
  "new_events h h' = drop (length (trace h)) (trace h')"

text \<open>
  Between two stores the trace has only grown, and it has one \<open>Closed c\<close> for each
  subscription \<open>c\<close> that was open in the first and is closed in the second, none for any
  other.
\<close>

definition transitions :: "heap \<Rightarrow> heap \<Rightarrow> bool" where
  "transitions h h' =
     (\<exists>evs. trace h' = trace h @ evs \<and>
        (\<forall>c. count_list evs (Closed c) =
              (if closed (subs h' c) \<and> \<not> closed (subs h c) then 1 else 0)))"

section \<open>Vocabulary of the statements\<close>

text \<open>The teardown list a subscription holds, empty when the field is \<^verbatim>\<open>null\<close>.\<close>

definition stored :: "subscription \<Rightarrow> teardown list" where
  "stored s = (case teardowns s of None \<Rightarrow> [] | Some ts \<Rightarrow> ts)"

text \<open>A teardown that is not a \<^verbatim>\<open>Subscription\<close>, and the trace event its execution starts with.\<close>

fun is_action :: "teardown \<Rightarrow> bool" where
  "is_action (Sub c) = False"
| "is_action td = True"

fun invoked :: "teardown \<Rightarrow> event list" where
  "invoked (Fn f) = [Called f]"
| "invoked (Unsubscribable f) = [Called f]"
| "invoked (Sub c) = []"

fun release_calls :: "subscription \<Rightarrow> event list" where
  "release_calls s = (case unsubscribe_action s of None \<Rightarrow> [] | Some f \<Rightarrow> [Called f])"

text \<open>
  Function bodies that do nothing to the store except, possibly, call \<^verbatim>\<open>unsubscribe\<close> again
  on the subscription \<open>s\<close> that is being disposed.
\<close>

fun reenters :: "sid \<Rightarrow> cmd \<Rightarrow> bool" where
  "reenters s (Throw e) = True"
| "reenters s (CallUnsubscribe t) = (t = s)"
| "reenters s c = False"

definition harmless :: "(fid \<Rightarrow> cmd list) \<Rightarrow> sid \<Rightarrow> bool" where
  "harmless fns s = (\<forall>f. list_all (reenters s) (fns f))"

text \<open>
  The values that the \<^verbatim>\<open>throw\<close> statements of a function body throw. Functions throw
  new values when none of these is a kept error.
\<close>

fun thrown :: "cmd \<Rightarrow> val list" where
  "thrown (Throw e) = [e]"
| "thrown c = []"

fun kept :: "val \<Rightarrow> bool" where
  "kept (KeptUnsubscriptionError a) = True"
| "kept v = False"

definition throws_new :: "(fid \<Rightarrow> cmd list) \<Rightarrow> bool" where
  "throws_new fns = (\<forall>f. list_all (\<lambda>e. \<not> kept e) (concat (map thrown (fns f))))"

text \<open>
  A list of errors is flat when it holds no \<^verbatim>\<open>UnsubscriptionError\<close>. Functions throw flat
  errors when every \<^verbatim>\<open>UnsubscriptionError\<close> they throw is a new one with a flat list.
\<close>

fun aggregate :: "val \<Rightarrow> bool" where
  "aggregate (UnsubscriptionError es) = True"
| "aggregate (KeptUnsubscriptionError a) = True"
| "aggregate v = False"

definition flat_list :: "val list \<Rightarrow> bool" where
  "flat_list es = list_all (\<lambda>e. \<not> aggregate e) es"

fun flat_error :: "val \<Rightarrow> bool" where
  "flat_error (UnsubscriptionError es) = flat_list es"
| "flat_error (KeptUnsubscriptionError a) = False"
| "flat_error v = True"

definition throws_flat :: "(fid \<Rightarrow> cmd list) \<Rightarrow> bool" where
  "throws_flat fns = (\<forall>f. list_all flat_error (concat (map thrown (fns f))))"

text \<open>
  The dispatch of \<^verbatim>\<open>fromSource\<close> as the specification words it: the shape tests in their
  fixed precedence, each with its adapter; the first test that holds selects.
\<close>

definition precedence :: "(('i guards \<Rightarrow> 'i \<Rightarrow> bool) \<times> ('i \<Rightarrow> 'i source)) list" where
  "precedence =
     [(isObservable, PassThrough),
      (isPromiseLike, PromiseSource),
      (isArrayLike, OfSource),
      (isIterable, IterableSource),
      (isInteropObservable, SymbolObservableSource),
      (isAsyncIterable, AsyncIterableSource)]"

definition first_match :: "'i guards \<Rightarrow> 'i \<Rightarrow> val + 'i source" where
  "first_match g input =
     (case find (\<lambda>(test, adapter). test g input) precedence of
        None \<Rightarrow> Inl (Error ''Unable to convert from input to Observable source'')
      | Some (test, adapter) \<Rightarrow> Inr (adapter input))"

text \<open>
  The protocol on the messages of one subscription: at most one terminal message, and no
  message after a terminal one.
\<close>

definition one_terminal_last :: "msg list \<Rightarrow> bool" where
  "one_terminal_last ms =
     (length (filter terminal ms) \<le> 1 \<and> list_all (\<lambda>m. \<not> terminal m) (butlast ms))"

text \<open>No message was handed to the sink while the token was closed.\<close>

definition delivered_open :: "delivery list \<Rightarrow> bool" where
  "delivered_open log = list_all (\<lambda>d. \<not> snd d) log"

text \<open>
  A \<^verbatim>\<open>PromiseLike\<close> that calls back at most once, as a promise does; and an iterable whose
  \<^verbatim>\<open>next()\<close> does not close the token \<open>s\<close>.
\<close>

definition settles_once :: "'a thenable \<Rightarrow> bool" where
  "settles_once p = (length p \<le> 1)"

definition pull_keeps_open :: "'it iterable \<Rightarrow> sid \<Rightarrow> bool" where
  "pull_keeps_open input s =
     (\<forall>it h r h'. \<not> closed (subs h s) \<and> iter_next input it h = Some (r, h') \<longrightarrow>
        \<not> closed (subs h' s))"

text \<open>Both together: what the specification asks of every adapter.\<close>

definition conforms :: "delivery list \<Rightarrow> bool" where
  "conforms log = (one_terminal_last (messages log) \<and> delivered_open log)"

text \<open>Every message but the last is a \<^verbatim>\<open>NEXT\<close>.\<close>

definition nexts_first :: "delivery list \<Rightarrow> bool" where
  "nexts_first log = list_all (\<lambda>d. fst (fst d) = NEXT) (butlast log)"

text \<open>The message the observer of \<^verbatim>\<open>symbolObservableSource\<close> makes of a notification.\<close>

fun of_notification :: "notification \<Rightarrow> msg" where
  "of_notification (ONext v) = (NEXT, v)"
| "of_notification (OError err) = (ERROR, err)"
| "of_notification OComplete = (COMPLETE, Undefined)"

text \<open>
  Function bodies that throw or call \<^verbatim>\<open>unsubscribe\<close> and \<^verbatim>\<open>remove\<close>, on any subscription,
  but neither call \<^verbatim>\<open>add\<close> nor reach a function through a handle: the two ways in which
  user code can make \<^verbatim>\<open>unsubscribe\<close> call functions without end.
\<close>

fun tame :: "cmd \<Rightarrow> bool" where
  "tame (Throw e) = True"
| "tame (CallUnsubscribe s) = True"
| "tame (CallRemove s td) = True"
| "tame c = False"

definition tame_fns :: "(fid \<Rightarrow> cmd list) \<Rightarrow> bool" where
  "tame_fns fns = (\<forall>f. list_all tame (fns f))"

text \<open>The subscriptions that are open in a store.\<close>

definition open_subs :: "heap \<Rightarrow> sid set" where
  "open_subs h = {s. \<not> closed (subs h s)}"

definition at_most_open :: "nat \<Rightarrow> heap \<Rightarrow> bool" where
  "at_most_open c h = (finite (open_subs h) \<and> card (open_subs h) \<le> c)"

text \<open>
  Two calls of \<^verbatim>\<open>unsubscribe\<close> in a row: the outcome of the first, the outcome of the
  second, and the store they leave.
\<close>

definition unsubscribe_twice ::
  "(fid \<Rightarrow> cmd list) \<Rightarrow> nat \<Rightarrow> nat \<Rightarrow> sid \<Rightarrow> heap \<Rightarrow> (val option \<times> val option \<times> heap) option" where
  "unsubscribe_twice fns n m s h =
     (case unsubscribe fns n s h of
        None \<Rightarrow> None
      | Some (r, h1) \<Rightarrow>
         (case unsubscribe fns (Suc m) s h1 of
            None \<Rightarrow> None
          | Some (r2, h2) \<Rightarrow> Some (r, r2, h2)))"

text \<open>The same with, in place of the last store, the events that the two calls have added.\<close>

definition twice_events ::
  "(fid \<Rightarrow> cmd list) \<Rightarrow> nat \<Rightarrow> nat \<Rightarrow> sid \<Rightarrow> heap \<Rightarrow> (val option \<times> val option \<times> event list) option" where
  "twice_events fns n m s h =
     map_option (\<lambda>(r, r2, h2). (r, r2, new_events h h2)) (unsubscribe_twice fns n m s h)"

section \<open>Disposal as the specification words it\<close>

text \<open>Running one teardown: an action is invoked, a token is disposed.\<close>

fun dispose_or_invoke ::
  "(fid \<Rightarrow> heap \<Rightarrow> outcome) \<Rightarrow> (sid \<Rightarrow> heap \<Rightarrow> outcome) \<Rightarrow> teardown \<Rightarrow> heap \<Rightarrow> outcome" where
  "dispose_or_invoke invoke dispose (Sub c) h = dispose c h"
| "dispose_or_invoke invoke dispose (Fn f) h = invoke f h"
| "dispose_or_invoke invoke dispose (Unsubscribable f) h = invoke f h"

text \<open>
  Every teardown of the list is run, whatever the earlier ones did; the result is what
  each of them did, in order: \<open>None\<close> for a normal return, \<open>Some e\<close> for a throw of \<open>e\<close>.
  The whole is \<open>None\<close> only when one of them does not return.
\<close>

fun run_each ::
  "(teardown \<Rightarrow> heap \<Rightarrow> outcome) \<Rightarrow> teardown list \<Rightarrow> heap \<Rightarrow> (val option list \<times> heap) option" where
  "run_each ex [] h = Some ([], h)"
| "run_each ex (td # tds) h =
     (case ex td h of
        None \<Rightarrow> None
      | Some (r, h') \<Rightarrow>
         (case run_each ex tds h' of
            None \<Rightarrow> None
          | Some (rs, h'') \<Rightarrow> Some (r # rs, h'')))"

text \<open>The values that were thrown, in order.\<close>

definition raised :: "val option list \<Rightarrow> val list" where
  "raised rs = concat (map (\<lambda>r. case r of None \<Rightarrow> [] | Some e \<Rightarrow> [e]) rs)"

text \<open>
  Nothing raised: a normal return. Otherwise one \<^verbatim>\<open>UnsubscriptionError\<close> whose list is the
  raised values in order, each \<^verbatim>\<open>UnsubscriptionError\<close> among them replaced by its own list.
\<close>

fun inner_errors :: "val \<Rightarrow> val list" where
  "inner_errors (UnsubscriptionError es) = es"
| "inner_errors e = [e]"

definition aggregated :: "val option list \<Rightarrow> val option" where
  "aggregated rs =
     (if raised rs = [] then None
      else Some (UnsubscriptionError (concat (map inner_errors (raised rs)))))"

text \<open>The release action, when there is one, run once and its result kept as it is.\<close>

definition run_release :: "(fid \<Rightarrow> heap \<Rightarrow> outcome) \<Rightarrow> sid \<Rightarrow> heap \<Rightarrow> outcome" where
  "run_release callf s h =
     (case unsubscribe_action (subs h s) of
        None \<Rightarrow> Some (None, h)
      | Some f \<Rightarrow>
         callf f (if ctorUnsubscribe (subs h s)
                  then upd s (\<lambda>x. x\<lparr>unsubscribe_action := None\<rparr>) h else h))"

text \<open>
  Disposal of an open subscription: close it and detach it from its parents, run the
  release action, run every teardown of the list then stored, and aggregate what was raised.
\<close>

definition dispose_spec :: "(fid \<Rightarrow> cmd list) \<Rightarrow> nat \<Rightarrow> sid \<Rightarrow> heap \<Rightarrow> outcome" where
  "dispose_spec fns n s h =
     (case run_release (call_fn fns n) s (detach s (mark_closed s h)) of
        None \<Rightarrow> None
      | Some (r0, h2) \<Rightarrow>
         (case run_each (dispose_or_invoke (call_fn fns n) (unsubscribe fns n))
                 (stored (subs h2 s)) (upd s (\<lambda>x. x\<lparr>teardowns := None\<rparr>) h2) of
            None \<Rightarrow> None
          | Some (rs, h3) \<Rightarrow> Some (aggregated (r0 # rs), h3)))"

text \<open>
  A teardown has run between two stores: a function was called in between, a subscription
  is closed at the end.
\<close>

fun ran :: "heap \<Rightarrow> heap \<Rightarrow> teardown \<Rightarrow> bool" where
  "ran h h' (Fn f) = (Called f \<in> set (new_events h h'))"
| "ran h h' (Unsubscribable f) = (Called f \<in> set (new_events h h'))"
| "ran h h' (Sub c) = closed (subs h' c)"

text \<open>
  The error list of the source's loop after the results \<open>rs\<close>, started from \<open>errors\<close>, when
  no kept error is among them.
\<close>

definition absorb :: "val list option \<Rightarrow> val option list \<Rightarrow> val list option" where
  "absorb errors rs =
     (if raised rs = [] then errors
      else Some ((case errors of None \<Rightarrow> [] | Some es \<Rightarrow> es) @
                 concat (map inner_errors (raised rs))))"

text \<open>
  The store in which the teardown loop of \<^verbatim>\<open>unsubscribe\<close> starts: the subscription closed
  and detached, its release action run.
\<close>

definition pass_start :: "(fid \<Rightarrow> cmd list) \<Rightarrow> nat \<Rightarrow> sid \<Rightarrow> heap \<Rightarrow> heap option" where
  "pass_start fns n s h =
     map_option snd (release (call_fn fns n) s (detach s (mark_closed s h)))"

section \<open>Example stores, functions and inputs\<close>

text \<open>A store in which every subscription is fresh: \<^verbatim>\<open>new Subscription()\<close>.\<close>

definition fresh :: heap where
  "fresh =
     \<lparr>subs = (\<lambda>_. new_Subscription None), vars = (\<lambda>_. Undefined), arrays = (\<lambda>_. []),
      trace = []\<rparr>"

text \<open>
  A store in which every subscription is closed and holds nothing, as
  \<^verbatim>\<open>Subscription.EMPTY\<close> is.
\<close>

definition settled :: heap where
  "settled =
     \<lparr>subs = (\<lambda>_. EMPTY), vars = (\<lambda>_. Undefined), arrays = (\<lambda>_. []), trace = []\<rparr>"

text \<open>
  Subscription \<open>0\<close> was constructed with function \<open>9\<close> and holds the teardowns \<open>1\<close>, \<open>2\<close>
  and \<open>1\<close> again; function \<open>1\<close> disposes subscription \<open>0\<close> once more, function \<open>2\<close> throws.
\<close>

definition reentrant_fns :: "fid \<Rightarrow> cmd list" where
  "reentrant_fns = (\<lambda>_. [])(1 := [CallUnsubscribe 0], 2 := [Throw (Str ''boom'')])"

definition reentrant_store :: heap where
  "reentrant_store =
     upd 0 (\<lambda>_. (new_Subscription (Some 9))\<lparr>teardowns := Some [Fn 1, Fn 2, Fn 1]\<rparr>) settled"

text \<open>
  Inputs described by the names of the shapes they have, and the shape tests that read
  those names. A JavaScript array is both array-like and iterable.
\<close>

definition shape_guards :: "string list guards" where
  "shape_guards =
     \<lparr>isObservable = (\<lambda>i. ''observable'' \<in> set i),
      isPromiseLike = (\<lambda>i. ''then'' \<in> set i),
      isArrayLike = (\<lambda>i. ''length'' \<in> set i),
      isIterable = (\<lambda>i. ''iterator'' \<in> set i),
      isInteropObservable = (\<lambda>i. ''Symbol.observable'' \<in> set i),
      isAsyncIterable = (\<lambda>i. ''asyncIterator'' \<in> set i)\<rparr>"

text \<open>Subscription \<open>0\<close> holds three teardowns, each of which throws an error of its own.\<close>

definition throwing_fns :: "fid \<Rightarrow> cmd list" where
  "throwing_fns =
     (\<lambda>_. [])(1 := [Throw (Error ''first'')], 2 := [Throw (Error ''second'')],
              3 := [Throw (Error ''third'')])"

definition throwing_store :: heap where
  "throwing_store =
     upd 0 (\<lambda>_. (new_Subscription None)\<lparr>teardowns := Some [Fn 1, Fn 2, Fn 3]\<rparr>) settled"

text \<open>
  Subscription \<open>0\<close> holds a function that throws, its child \<open>1\<close> and another function that
  throws; the child holds a function that throws and one that throws an
  \<^verbatim>\<open>UnsubscriptionError\<close> of two errors.
\<close>

definition aggregating_fns :: "fid \<Rightarrow> cmd list" where
  "aggregating_fns =
     (\<lambda>_. [])(1 := [Throw (Error ''first'')], 2 := [Throw (Error ''second'')],
              3 := [Throw (UnsubscriptionError [Error ''third'', Error ''fourth''])],
              4 := [Throw (Error ''fifth'')])"

definition aggregating_store :: heap where
  "aggregating_store =
     upd 0 (\<lambda>_. (new_Subscription None)\<lparr>teardowns := Some [Fn 1, Sub 1, Fn 4]\<rparr>)
       (upd 1 (\<lambda>_. (new_Subscription None)\<lparr>singleParent := Some 0,
                   teardowns := Some [Fn 2, Fn 3]\<rparr>) settled)"

text \<open>
  Subscription \<open>0\<close> holds a function that throws an \<^verbatim>\<open>UnsubscriptionError\<close> whose list holds
  an \<^verbatim>\<open>UnsubscriptionError\<close>.
\<close>

definition nesting_fns :: "fid \<Rightarrow> cmd list" where
  "nesting_fns =
     (\<lambda>_. [])(1 := [Throw (UnsubscriptionError [UnsubscriptionError [Error ''inner'']])])"

definition nesting_store :: heap where
  "nesting_store =
     upd 0 (\<lambda>_. (new_Subscription None)\<lparr>teardowns := Some [Fn 1]\<rparr>) settled"

text \<open>
  Function \<open>1\<close> throws the error it keeps, whose array \<open>7\<close> holds \<open>x\<close>; function \<open>2\<close> throws
  \<open>y\<close>. Subscription \<open>0\<close> was constructed with function \<open>1\<close> and holds the teardowns \<open>2\<close>
  and \<open>1\<close>.
\<close>

definition keeping_fns :: "fid \<Rightarrow> cmd list" where
  "keeping_fns = (\<lambda>_. [])(1 := [Throw (KeptUnsubscriptionError 7)], 2 := [Throw (Str ''y'')])"

definition keeping_store :: heap where
  "keeping_store =
     (upd 0 (\<lambda>_. (new_Subscription (Some 1))\<lparr>teardowns := Some [Fn 2, Fn 1]\<rparr>) settled)
       \<lparr>arrays := (\<lambda>_. [])(7 := [Str ''x''])\<rparr>"

text \<open>
  Subscription \<open>0\<close> was constructed with function \<open>9\<close>, which removes teardown \<open>1\<close> from it,
  and holds teardown \<open>1\<close>.
\<close>

definition removing_fns :: "fid \<Rightarrow> cmd list" where
  "removing_fns = (\<lambda>_. [])(9 := [CallRemove 0 (Fn 1)])"

definition removing_store :: heap where
  "removing_store =
     upd 0 (\<lambda>_. (new_Subscription (Some 9))\<lparr>teardowns := Some [Fn 1]\<rparr>) settled"




text \<open>Functions that do nothing.\<close>

definition logging_fns :: "fid \<Rightarrow> cmd list" where
  "logging_fns = (\<lambda>_. [])"

text \<open>A sink that only returns, and a sink that disposes the token when it receives \<^verbatim>\<open>NEXT\<close>.\<close>

definition quiet_sink :: sink where
  "quiet_sink t v s h = Some (None, h)"

definition dispose_on_next :: "(fid \<Rightarrow> cmd list) \<Rightarrow> nat \<Rightarrow> sink" where
  "dispose_on_next fns n t v s h = (if t = NEXT then unsubscribe fns n s h else Some (None, h))"

text \<open>
  An object with a \<^verbatim>\<open>then\<close> method that calls the fulfilment callback twice, and an iterable
  whose first \<^verbatim>\<open>next()\<close> disposes the token \<open>s\<close> before it yields \<open>1\<close>.
\<close>

definition twice_fulfilled :: "val thenable" where
  "twice_fulfilled = [Fulfil (Num 1), Fulfil (Num 2)]"

definition closing_iterable :: "(fid \<Rightarrow> cmd list) \<Rightarrow> nat \<Rightarrow> sid \<Rightarrow> bool iterable" where
  "closing_iterable fns n s =
     \<lparr>iterator = (\<lambda>h. Some (Inr True, h)),
      iter_next =
        (\<lambda>first h.
           if first
           then (case unsubscribe fns n s h of
                   None \<Rightarrow> None
                 | Some (None, h') \<Rightarrow> Some (Inr (Yield (Num 1) False), h')
                 | Some (Some e, h') \<Rightarrow> Some (Inl e, h'))
           else Some (Inr Done, h))\<rparr>"

text \<open>An external stream that reports two errors, and an async iterator of one value.\<close>

definition twice_failing :: observable_like where
  "twice_failing =
     \<lparr>during_subscribe = [OError (Str ''a''), OError (Str ''b'')], handle = Undefined,
      afterwards = []\<rparr>"

definition single_async :: "val \<Rightarrow> bool async_iterable" where
  "single_async v =
     \<lparr>async_iterator = True,
      async_next = (\<lambda>b. [Fulfil (if b then AsyncYield v False else AsyncDone)])\<rparr>"

text \<open>
  The closure that \<^verbatim>\<open>symbolObservableSource\<close> passes to \<^verbatim>\<open>subs.add\<close>, as function \<open>0\<close> over
  variable \<open>0\<close>.
\<close>

definition closure_fns :: "fid \<Rightarrow> cmd list" where
  "closure_fns = (\<lambda>_. [])(0 := [UnsubscribeHandle 0])"

section \<open>Every call is a sequence of primitive updates\<close>

text \<open>
  \<^verbatim>\<open>remove\<close> and the detaching block are sequences of primitive updates; so is every
  call of \<^verbatim>\<open>unsubscribe\<close>, \<^verbatim>\<open>add\<close> or a user function that returns, by induction on the
  call depth.
\<close>

lemma steps_remove: "step\<^sup>*\<^sup>* h (remove p td h)"
proof -
  let ?h1 = "case teardowns (subs h p) of
               Some ts \<Rightarrow> upd p (\<lambda>s. s\<lparr>teardowns := Some (remove1 td ts)\<rparr>) h | None \<Rightarrow> h"
  have a: "step\<^sup>*\<^sup>* h ?h1"
    by (cases "teardowns (subs h p)") (auto intro: step_remove1)
  have b: "step\<^sup>*\<^sup>* ?h1 (case td of Sub c \<Rightarrow> upd c (removeParent p) ?h1 | _ \<Rightarrow> ?h1)"
    by (cases td) (auto intro: step_removeParent)
  from a b show ?thesis
    unfolding remove_def Let_def by (rule rtranclp_trans)
qed

lemma steps_fold_remove: "step\<^sup>*\<^sup>* h (fold (\<lambda>parent. remove parent td) ps h)"
proof (induction ps arbitrary: h)
  case Nil
  show ?case by simp
next
  case (Cons p ps)
  have "step\<^sup>*\<^sup>* h (remove p td h)" by (rule steps_remove)
  also have "step\<^sup>*\<^sup>* (remove p td h) (fold (\<lambda>parent. remove parent td) ps (remove p td h))"
    by (rule Cons.IH)
  finally show ?case by simp
qed

lemma steps_detach: "step\<^sup>*\<^sup>* h (detach s h)"
proof (cases "singleParent (subs h s)")
  case (Some p)
  have "step\<^sup>*\<^sup>* h (upd s (\<lambda>x. x\<lparr>singleParent := None\<rparr>) h)"
    by (auto intro: step_single)
  also have "step\<^sup>*\<^sup>* \<dots> (remove p (Sub s) (upd s (\<lambda>x. x\<lparr>singleParent := None\<rparr>) h))"
    by (rule steps_remove)
  finally show ?thesis using Some by (simp add: detach_def)
next
  case None
  show ?thesis
  proof (cases "parents (subs h s)")
    case None': None
    with None show ?thesis by (simp add: detach_def)
  next
    case (Some ps)
    have "step\<^sup>*\<^sup>* h (upd s (\<lambda>x. x\<lparr>parents := None\<rparr>) h)"
      by (auto intro: step_parents)
    also have "step\<^sup>*\<^sup>* \<dots> (fold (\<lambda>parent. remove parent (Sub s)) ps (upd s (\<lambda>x. x\<lparr>parents := None\<rparr>) h))"
      by (rule steps_fold_remove)
    finally show ?thesis using None Some by (simp add: detach_def)
  qed
qed

lemma soundD: "sound ex \<Longrightarrow> ex a h = Some (r, h') \<Longrightarrow> step\<^sup>*\<^sup>* h h'"
  by (auto simp: sound_def)

lemma collect_props:
  assumes "collect errors err h = (errors', h')"
  shows "subs h' = subs h" "trace h' = trace h" "vars h' = vars h"
  using assms
  by (auto simp: collect_def Let_def split: val.splits array.splits option.splits)

lemma steps_collect: "collect errors err h = (errors', h') \<Longrightarrow> step\<^sup>*\<^sup>* h h'"
  by (auto simp: collect_def Let_def split: val.splits array.splits option.splits
      intro: step_collect)

lemma steps_run_teardowns:
  assumes "sound ex"
  shows "run_teardowns ex tds errors h = Some (errors', h') \<Longrightarrow> step\<^sup>*\<^sup>* h h'"
proof (induction tds arbitrary: errors h)
  case Nil
  then show ?case by simp
next
  case (Cons td tds)
  from Cons.prems obtain r h1 where 1: "ex td h = Some (r, h1)"
    by (auto split: option.splits)
  show ?case
  proof (cases r)
    case None
    with Cons.prems 1 have "run_teardowns ex tds errors h1 = Some (errors', h')" by simp
    then have "step\<^sup>*\<^sup>* h1 h'" by (rule Cons.IH)
    with soundD[OF assms 1] show ?thesis by (rule rtranclp_trans)
  next
    case (Some e)
    obtain e1 h2 where c: "collect errors e h1 = (e1, h2)" by (cases "collect errors e h1")
    with Cons.prems 1 Some have "run_teardowns ex tds e1 h2 = Some (errors', h')" by simp
    then have "step\<^sup>*\<^sup>* h2 h'" by (rule Cons.IH)
    with steps_collect[OF c] have "step\<^sup>*\<^sup>* h1 h'" by (rule rtranclp_trans)
    with soundD[OF assms 1] show ?thesis by (rule rtranclp_trans)
  qed
qed

lemma steps_run_cmds:
  assumes "sound ex"
  shows "run_cmds ex cs h = Some (r, h') \<Longrightarrow> step\<^sup>*\<^sup>* h h'"
proof (induction cs arbitrary: h)
  case Nil
  then show ?case by simp
next
  case (Cons c cs)
  from Cons.prems obtain r1 h1 where 1: "ex c h = Some (r1, h1)"
    by (auto split: option.splits)
  show ?case
  proof (cases r1)
    case None
    with Cons.prems 1 have "run_cmds ex cs h1 = Some (r, h')" by simp
    then have "step\<^sup>*\<^sup>* h1 h'" by (rule Cons.IH)
    with soundD[OF assms 1] show ?thesis by (rule rtranclp_trans)
  next
    case (Some e)
    with Cons.prems 1 have "h' = h1" by simp
    with soundD[OF assms 1] show ?thesis by simp
  qed
qed

lemma sound_execute: "sound callf \<Longrightarrow> sound unsub \<Longrightarrow> sound (execute callf unsub)"
  unfolding sound_def execute_def by (auto split: teardown.splits)

lemma sound_run_cmd:
  assumes "sound unsub" "sound (\<lambda>(s, td). addf s td)" "sound callf"
  shows "sound (run_cmd unsub addf callf)"
  unfolding sound_def
proof (intro allI impI)
  fix c h r h'
  assume a: "run_cmd unsub addf callf c h = Some (r, h')"
  show "step\<^sup>*\<^sup>* h h'"
  proof (cases c)
    case (Throw e)
    with a show ?thesis by (simp add: run_cmd_def)
  next
    case (CallUnsubscribe s)
    with a assms(1) show ?thesis by (auto simp: run_cmd_def sound_def)
  next
    case (CallAdd s td)
    with a have "(\<lambda>(s, td). addf s td) (s, td) h = Some (r, h')" by (simp add: run_cmd_def)
    then show ?thesis by (rule soundD[OF assms(2)])
  next
    case (CallRemove s td)
    with a show ?thesis by (auto simp: run_cmd_def steps_remove)
  next
    case (UnsubscribeHandle x)
    with a assms(3) show ?thesis
      by (auto simp: run_cmd_def sound_def split: val.splits option.splits)
  qed
qed

lemma steps_release:
  assumes "sound callf" "release callf s h = Some (es, h')"
  shows "step\<^sup>*\<^sup>* h h'"
proof (cases "unsubscribe_action (subs h s)")
  case None
  with assms(2) show ?thesis by (simp add: release_def)
next
  case (Some f)
  let ?h0 = "if ctorUnsubscribe (subs h s) then upd s (\<lambda>x. x\<lparr>unsubscribe_action := None\<rparr>) h else h"
  have 0: "step\<^sup>*\<^sup>* h ?h0" by (auto intro: step_action)
  from assms(2) Some obtain r where "callf f ?h0 = Some (r, h')"
    by (auto simp: release_def split: option.splits)
  then have "step\<^sup>*\<^sup>* ?h0 h'" by (rule soundD[OF assms(1)])
  with 0 show ?thesis by (rule rtranclp_trans)
qed

lemma steps_teardown_pass:
  assumes "sound ex" "teardown_pass ex s es h = Some (es', h')"
  shows "step\<^sup>*\<^sup>* h h'"
proof -
  let ?h0 = "upd s (\<lambda>x. x\<lparr>teardowns := None\<rparr>) h"
  have 0: "step\<^sup>*\<^sup>* h ?h0" by (auto intro: step_teardowns)
  have "step\<^sup>*\<^sup>* ?h0 h'"
  proof (cases "teardowns (subs h s)")
    case None
    with assms(2) show ?thesis by (simp add: teardown_pass_def)
  next
    case (Some tds)
    with assms(2) have "run_teardowns ex tds es ?h0 = Some (es', h')"
      by (simp add: teardown_pass_def)
    then show ?thesis by (rule steps_run_teardowns[OF assms(1)])
  qed
  with 0 show ?thesis by (rule rtranclp_trans)
qed

lemma sound_all:
  "sound (unsubscribe fns n) \<and> sound (\<lambda>(s, td). add fns n s td) \<and> sound (call_fn fns n)"
proof (induction n)
  case 0
  show ?case by (simp add: sound_def)
next
  case (Suc n)
  then have U: "sound (unsubscribe fns n)" and A: "sound (\<lambda>(s, td). add fns n s td)"
    and C: "sound (call_fn fns n)" by auto
  have E: "sound (execute (call_fn fns n) (unsubscribe fns n))"
    by (rule sound_execute[OF C U])
  have 1: "sound (unsubscribe fns (Suc n))"
    unfolding sound_def
  proof (intro allI impI)
    fix s h r h'
    assume a: "unsubscribe fns (Suc n) s h = Some (r, h')"
    show "step\<^sup>*\<^sup>* h h'"
    proof (cases "closed (subs h s)")
      case True
      with a show ?thesis by simp
    next
      case False
      let ?h1 = "detach s (mark_closed s h)"
      from a False obtain es h2 es' where
        r: "release (call_fn fns n) s ?h1 = Some (es, h2)" and
        t: "teardown_pass (execute (call_fn fns n) (unsubscribe fns n)) s es h2 = Some (es', h')"
        by (auto split: option.splits)
      have "step\<^sup>*\<^sup>* h (mark_closed s h)" using False by (auto intro: step_close)
      also have "step\<^sup>*\<^sup>* \<dots> ?h1" by (rule steps_detach)
      also have "step\<^sup>*\<^sup>* ?h1 h2" by (rule steps_release[OF C r])
      also have "step\<^sup>*\<^sup>* h2 h'" by (rule steps_teardown_pass[OF E t])
      finally show ?thesis .
    qed
  qed
  have 2: "sound (\<lambda>(s, td). add fns (Suc n) s td)"
    unfolding sound_def
  proof (intro allI impI)
    fix a h r h'
    assume a: "(case a of (s, td) \<Rightarrow> add fns (Suc n) s td) h = Some (r, h')"
    obtain s td where [simp]: "a = (s, td)" by (cases a)
    from a have a': "add fns (Suc n) s td h = Some (r, h')" by simp
    show "step\<^sup>*\<^sup>* h h'"
    proof (cases td)
      case None
      with a' show ?thesis by simp
    next
      case (Some t)
      show ?thesis
      proof (cases "t = Sub s")
        case True
        with a' Some show ?thesis by simp
      next
        case ne: False
        show ?thesis
        proof (cases "closed (subs h s)")
          case True
          with a' Some ne have "execute (call_fn fns n) (unsubscribe fns n) t h = Some (r, h')"
            by simp
          then show ?thesis by (rule soundD[OF E])
        next
          case op: False
          show ?thesis
          proof (cases t)
            case (Fn f)
            with a' Some ne op show ?thesis by (auto intro: step_push)
          next
            case (Unsubscribable f)
            with a' Some ne op show ?thesis by (auto intro: step_push)
          next
            case (Sub c)
            show ?thesis
            proof (cases "closed (subs h c) \<or> hasParent (subs h c) s")
              case True
              with a' Some ne op Sub show ?thesis by auto
            next
              case False
              with a' Some ne op Sub have h': "h' = push s t (upd c (addParent s) h)" by auto
              have "step h (upd c (addParent s) h)" using False by (auto intro: step_addParent)
              moreover have "step (upd c (addParent s) h) (push s t (upd c (addParent s) h))"
                using op ne Sub by (intro step_push) (auto simp: upd_def)
              ultimately show ?thesis unfolding h' by auto
            qed
          qed
        qed
      qed
    qed
  qed
  have 3: "sound (call_fn fns (Suc n))"
    unfolding sound_def
  proof (intro allI impI)
    fix f h r h'
    assume a: "call_fn fns (Suc n) f h = Some (r, h')"
    have "step\<^sup>*\<^sup>* h (h\<lparr>trace := trace h @ [Called f]\<rparr>)" by (auto intro: step_called)
    also have "step\<^sup>*\<^sup>* \<dots> h'"
      using a steps_run_cmds[OF sound_run_cmd[OF U A C]] by simp
    finally show "step\<^sup>*\<^sup>* h h'" .
  qed
  from 1 2 3 show ?case by blast
qed

section \<open>What the primitive updates preserve\<close>

text \<open>
  A closed subscription stays closed, \<^verbatim>\<open>EMPTY\<close> stays as it is, a closed subscription
  gains no teardown, and the trace grows by one \<open>Closed\<close> event for each subscription
  that goes from open to closed.
\<close>

lemma step_closed_mono: "step h h' \<Longrightarrow> closed (subs h s) \<Longrightarrow> closed (subs h' s)"
  by (induction rule: step.induct)
     (auto simp: upd_def mark_closed_def push_def removeParent_def addParent_def split: option.splits)

lemma steps_closed_mono: "step\<^sup>*\<^sup>* h h' \<Longrightarrow> closed (subs h s) \<Longrightarrow> closed (subs h' s)"
  by (induction rule: rtranclp_induct) (auto dest: step_closed_mono)

lemma step_EMPTY: "step h h' \<Longrightarrow> subs h e = EMPTY \<Longrightarrow> subs h' e = EMPTY"
  by (induction rule: step.induct)
     (auto simp: upd_def mark_closed_def push_def removeParent_def addParent_def EMPTY_def
        new_Subscription_def split: option.splits)

lemma steps_EMPTY: "step\<^sup>*\<^sup>* h h' \<Longrightarrow> subs h e = EMPTY \<Longrightarrow> subs h' e = EMPTY"
  by (induction rule: rtranclp_induct) (auto dest: step_EMPTY)

lemma step_pending:
  "step h h' \<Longrightarrow> closed (subs h s) \<Longrightarrow> pending (subs h' s) \<le> pending (subs h s)"
  by (induction rule: step.induct)
     (auto simp: upd_def mark_closed_def push_def removeParent_def addParent_def pending_def
        length_remove1 split: option.splits)

lemma steps_pending:
  "step\<^sup>*\<^sup>* h h' \<Longrightarrow> closed (subs h s) \<Longrightarrow> pending (subs h' s) \<le> pending (subs h s)"
proof (induction rule: rtranclp_induct)
  case base
  show ?case by simp
next
  case (step y z)
  then have "closed (subs y s)" by (auto dest: steps_closed_mono)
  with step show ?case by (auto dest!: step_pending[where s = s])
qed

lemma step_transitions: "step h h' \<Longrightarrow> transitions h h'"
  by (induction rule: step.induct)
     (auto simp: transitions_def upd_def mark_closed_def push_def removeParent_def addParent_def
        split: option.splits)

lemma transitions_refl: "transitions h h"
  by (simp add: transitions_def)

lemma transitions_trans:
  assumes "transitions a b" "transitions b c" "\<And>s. closed (subs a s) \<Longrightarrow> closed (subs b s)"
    "\<And>s. closed (subs b s) \<Longrightarrow> closed (subs c s)"
  shows "transitions a c"
proof -
  from assms(1) obtain e1 where 1: "trace b = trace a @ e1"
    "\<forall>s. count_list e1 (Closed s) = (if closed (subs b s) \<and> \<not> closed (subs a s) then 1 else 0)"
    unfolding transitions_def by blast
  from assms(2) obtain e2 where 2: "trace c = trace b @ e2"
    "\<forall>s. count_list e2 (Closed s) = (if closed (subs c s) \<and> \<not> closed (subs b s) then 1 else 0)"
    unfolding transitions_def by blast
  have t: "trace c = trace a @ (e1 @ e2)" using 1(1) 2(1) by simp
  have "count_list (e1 @ e2) (Closed s) = (if closed (subs c s) \<and> \<not> closed (subs a s) then 1 else 0)" for s
  proof -
    have x: "count_list e1 (Closed s) = (if closed (subs b s) \<and> \<not> closed (subs a s) then 1 else 0)"
      using 1(2) by blast
    have y: "count_list e2 (Closed s) = (if closed (subs c s) \<and> \<not> closed (subs b s) then 1 else 0)"
      using 2(2) by blast
    show ?thesis
      using assms(3)[of s] assms(4)[of s] by (cases "closed (subs a s)"; cases "closed (subs b s)") (simp_all add: x y)
  qed
  then have "\<forall>s. count_list (e1 @ e2) (Closed s) = (if closed (subs c s) \<and> \<not> closed (subs a s) then 1 else 0)"
    by blast
  with t show ?thesis unfolding transitions_def by (intro exI[of _ "e1 @ e2"] conjI)
qed

lemma steps_transitions: "step\<^sup>*\<^sup>* h h' \<Longrightarrow> transitions h h'"
proof (induction rule: rtranclp_induct)
  case base
  show ?case by (rule transitions_refl)
next
  case (step y z)
  show ?case
    by (rule transitions_trans[OF step.IH step_transitions[OF step.hyps(2)]])
       (auto intro: steps_closed_mono[OF step.hyps(1)] step_closed_mono[OF step.hyps(2)])
qed

section \<open>Disposal: basic facts\<close>

text \<open>
  \<^verbatim>\<open>unsubscribe\<close> on a closed subscription does nothing; a call that returns leaves the
  subscription closed; teardown functions that at most re-enter \<^verbatim>\<open>unsubscribe\<close> on the
  subscription being disposed are each called once.
\<close>

lemma unsubscribe_closed: "closed (subs h s) \<Longrightarrow> unsubscribe fns (Suc n) s h = Some (None, h)"
  by simp

lemma sound_unsubscribe: "sound (unsubscribe fns n)"
  using sound_all by blast

lemma sound_call_fn: "sound (call_fn fns n)"
  using sound_all by blast

lemma sound_add: "add fns n s td h = Some (r, h') \<Longrightarrow> step\<^sup>*\<^sup>* h h'"
proof -
  assume a: "add fns n s td h = Some (r, h')"
  have "sound (\<lambda>(s, td). add fns n s td)" using sound_all by blast
  from soundD[OF this, of "(s, td)"] a show ?thesis by simp
qed

lemma sound_executor: "sound (execute (call_fn fns n) (unsubscribe fns n))"
  by (rule sound_execute[OF sound_call_fn sound_unsubscribe])

lemma closed_mark_closed: "closed (subs (mark_closed s h) s)"
  by (simp add: mark_closed_def upd_def)

lemma unsubscribe_open_steps:
  assumes "\<not> closed (subs h s)" "unsubscribe fns (Suc n) s h = Some (r, h')"
  shows "step\<^sup>*\<^sup>* (mark_closed s h) h'"
proof -
  from assms obtain es h2 es' where
    r: "release (call_fn fns n) s (detach s (mark_closed s h)) = Some (es, h2)" and
    t: "teardown_pass (execute (call_fn fns n) (unsubscribe fns n)) s es h2 = Some (es', h')"
    by (auto split: option.splits)
  have "step\<^sup>*\<^sup>* (mark_closed s h) (detach s (mark_closed s h))" by (rule steps_detach)
  also have "step\<^sup>*\<^sup>* \<dots> h2" by (rule steps_release[OF sound_call_fn r])
  also have "step\<^sup>*\<^sup>* h2 h'" by (rule steps_teardown_pass[OF sound_executor t])
  finally show ?thesis .
qed

lemma unsubscribe_closes:
  assumes "unsubscribe fns n s h = Some (r, h')"
  shows "closed (subs h' s)"
proof (cases n)
  case 0
  with assms show ?thesis by simp
next
  case (Suc m)
  show ?thesis
  proof (cases "closed (subs h s)")
    case True
    with assms Suc show ?thesis by simp
  next
    case False
    from unsubscribe_open_steps[OF False assms[unfolded Suc]]
    show ?thesis by (rule steps_closed_mono) (rule closed_mark_closed)
  qed
qed

lemma steps_trace: "step\<^sup>*\<^sup>* h h' \<Longrightarrow> trace h' = trace h @ new_events h h'"
  by (drule steps_transitions) (auto simp: transitions_def new_events_def)

lemma run_cmds_harmless:
  assumes "closed (subs g s)" "list_all (reenters s) cs"
  shows "\<exists>r. run_cmds (run_cmd (unsubscribe fns (Suc k)) addf callf) cs g = Some (r, g)"
  using assms(2)
proof (induction cs)
  case Nil
  show ?case by simp
next
  case (Cons c cs)
  then have c: "reenters s c" and cs: "list_all (reenters s) cs" by auto
  show ?case
  proof (cases c)
    case (Throw e)
    then show ?thesis by (simp add: run_cmd_def)
  next
    case (CallUnsubscribe t)
    with c have "t = s" by simp
    with CallUnsubscribe assms(1) Cons.IH[OF cs] show ?thesis by (simp add: run_cmd_def)
  qed (use c in auto)
qed

lemma call_fn_harmless:
  assumes "harmless fns s" "closed (subs g s)"
  shows "\<exists>r. call_fn fns (Suc (Suc k)) f g = Some (r, g\<lparr>trace := trace g @ [Called f]\<rparr>)"
proof -
  have "closed (subs (g\<lparr>trace := trace g @ [Called f]\<rparr>) s)" using assms(2) by simp
  moreover have "list_all (reenters s) (fns f)" using assms(1) by (simp add: harmless_def)
  ultimately show ?thesis using run_cmds_harmless by simp
qed

lemma run_teardowns_actions:
  assumes "\<And>f g. closed (subs g s) \<Longrightarrow> \<exists>r. callf f g = Some (r, g\<lparr>trace := trace g @ [Called f]\<rparr>)"
    and "closed (subs g s)" "list_all is_action tds"
  shows "\<exists>es' g'. run_teardowns (execute callf unsub) tds es g = Some (es', g') \<and>
           subs g' = subs g \<and> trace g' = trace g @ concat (map invoked tds)"
  using assms(2,3)
proof (induction tds arbitrary: es g)
  case Nil
  show ?case by simp
next
  case (Cons td tds)
  then obtain f where f: "td = Fn f \<or> td = Unsubscribable f" by (cases td) auto
  let ?g = "g\<lparr>trace := trace g @ [Called f]\<rparr>"
  from assms(1)[OF Cons.prems(1)]
  obtain r where r: "callf f g = Some (r, ?g)" by blast
  have e: "execute callf unsub td g = Some (r, ?g)"
    using f r by (auto simp: execute_def)
  have c: "closed (subs ?g s)" using Cons.prems(1) by simp
  have l: "list_all is_action tds" using Cons.prems(2) by simp
  have i: "invoked td = [Called f]" using f by auto
  show ?case
  proof (cases r)
    case None
    with e Cons.IH[OF c l, of es] i show ?thesis by simp
  next
    case (Some err)
    obtain e1 g1 where k: "collect es err ?g = (e1, g1)" by (cases "collect es err ?g")
    note p = collect_props[OF k]
    have c1: "closed (subs g1 s)" using c p by simp
    from Cons.IH[OF c1 l, of e1] obtain es' g' where
      "run_teardowns (execute callf unsub) tds e1 g1 = Some (es', g')" "subs g' = subs g1"
      "trace g' = trace g1 @ concat (map invoked tds)"
      by blast
    with Some e k p i show ?thesis by simp
  qed
qed

lemma remove_trace [simp]: "trace (remove p td h) = trace h"
  by (simp add: remove_def upd_def Let_def split: option.splits teardown.splits)

lemma remove_closed [simp]: "closed (subs (remove p td h) t) = closed (subs h t)"
  by (simp add: remove_def upd_def removeParent_def Let_def split: option.splits teardown.splits)

lemma remove_action [simp]:
  "unsubscribe_action (subs (remove p td h) t) = unsubscribe_action (subs h t)"
  "ctorUnsubscribe (subs (remove p td h) t) = ctorUnsubscribe (subs h t)"
  by (simp_all add: remove_def upd_def removeParent_def Let_def split: option.splits teardown.splits)

lemma remove_teardowns:
  "td \<notin> set (stored (subs h t)) \<Longrightarrow> teardowns (subs (remove p td h) t) = teardowns (subs h t)"
  by (auto simp: remove_def upd_def removeParent_def Let_def stored_def remove1_idem
      split: option.splits teardown.splits)

lemma fold_remove_props:
  "trace (fold (\<lambda>p. remove p td) ps h) = trace h"
  "closed (subs (fold (\<lambda>p. remove p td) ps h) t) = closed (subs h t)"
  "unsubscribe_action (subs (fold (\<lambda>p. remove p td) ps h) t) = unsubscribe_action (subs h t)"
  "ctorUnsubscribe (subs (fold (\<lambda>p. remove p td) ps h) t) = ctorUnsubscribe (subs h t)"
  by (induction ps arbitrary: h) simp_all

lemma fold_remove_teardowns:
  "td \<notin> set (stored (subs h t)) \<Longrightarrow>
   teardowns (subs (fold (\<lambda>p. remove p td) ps h) t) = teardowns (subs h t)"
proof (induction ps arbitrary: h)
  case Nil
  show ?case by simp
next
  case (Cons p ps)
  have 1: "teardowns (subs (remove p td h) t) = teardowns (subs h t)"
    by (rule remove_teardowns[OF Cons.prems])
  then have "td \<notin> set (stored (subs (remove p td h) t))"
    using Cons.prems by (simp add: stored_def)
  from Cons.IH[OF this] 1 show ?case by simp
qed

lemma detach_props:
  "trace (detach s h) = trace h"
  "closed (subs (detach s h) t) = closed (subs h t)"
  "unsubscribe_action (subs (detach s h) t) = unsubscribe_action (subs h t)"
  "ctorUnsubscribe (subs (detach s h) t) = ctorUnsubscribe (subs h t)"
  by (simp_all add: detach_def fold_remove_props upd_def split: option.splits)

lemma detach_teardowns:
  assumes "Sub s \<notin> set (stored (subs h t))"
  shows "teardowns (subs (detach s h) t) = teardowns (subs h t)"
proof -
  have a: "Sub s \<notin> set (stored (subs (upd s f h) t))"
    if "\<And>x. teardowns (f x) = teardowns x" for f
    using assms that by (simp add: upd_def stored_def)
  have b: "teardowns (subs (upd s f h) t) = teardowns (subs h t)"
    if "\<And>x. teardowns (f x) = teardowns x" for f
    using that by (simp add: upd_def)
  show ?thesis
    by (auto simp: detach_def remove_teardowns fold_remove_teardowns a b split: option.splits)
qed

lemma release_harmless:
  assumes "\<And>f g. closed (subs g s) \<Longrightarrow> \<exists>r. callf f g = Some (r, g\<lparr>trace := trace g @ [Called f]\<rparr>)"
    and "closed (subs g s)"
  shows "\<exists>es g'. release callf s g = Some (es, g') \<and> closed (subs g' s) \<and>
           teardowns (subs g' s) = teardowns (subs g s) \<and>
           trace g' = trace g @ release_calls (subs g s)"
proof (cases "unsubscribe_action (subs g s)")
  case None
  with assms(2) show ?thesis by (simp add: release_def)
next
  case (Some f)
  let ?g0 = "if ctorUnsubscribe (subs g s) then upd s (\<lambda>x. x\<lparr>unsubscribe_action := None\<rparr>) g else g"
  have c: "closed (subs ?g0 s)" using assms(2) by (simp add: upd_def)
  from assms(1)[OF c, of f] obtain r where r: "callf f ?g0 = Some (r, ?g0\<lparr>trace := trace ?g0 @ [Called f]\<rparr>)"
    by blast
  have "release callf s g = Some (map_option flatten_error r, ?g0\<lparr>trace := trace ?g0 @ [Called f]\<rparr>)"
    using Some r by (cases r) (simp_all add: release_def)
  moreover have "closed (subs (?g0\<lparr>trace := trace ?g0 @ [Called f]\<rparr>) s)" using c by simp
  moreover have "teardowns (subs (?g0\<lparr>trace := trace ?g0 @ [Called f]\<rparr>) s) = teardowns (subs g s)"
    by (simp add: upd_def)
  moreover have "trace (?g0\<lparr>trace := trace ?g0 @ [Called f]\<rparr>) = trace g @ release_calls (subs g s)"
    using Some by (simp add: upd_def)
  ultimately show ?thesis by blast
qed

lemma dispose_actions_once:
  assumes hl: "harmless fns s" and op: "\<not> closed (subs h s)"
    and act: "list_all is_action (stored (subs h s))"
  shows "\<exists>r h'. unsubscribe fns (Suc (Suc (Suc k))) s h = Some (r, h') \<and>
           new_events h h' =
             Closed s # release_calls (subs h s) @ concat (map invoked (stored (subs h s)))"
proof -
  let ?callf = "call_fn fns (Suc (Suc k))"
  let ?ex = "execute ?callf (unsubscribe fns (Suc (Suc k)))"
  let ?h1 = "detach s (mark_closed s h)"
  have cf: "\<And>f g. closed (subs g s) \<Longrightarrow> \<exists>r. ?callf f g = Some (r, g\<lparr>trace := trace g @ [Called f]\<rparr>)"
    by (rule call_fn_harmless[OF hl])
  have nosub: "Sub s \<notin> set (stored (subs h s))"
    using act by (auto simp: list_all_iff)
  have st: "stored (subs (mark_closed s h) s) = stored (subs h s)"
    by (simp add: mark_closed_def upd_def stored_def)
  have c1: "closed (subs ?h1 s)" by (simp add: detach_props closed_mark_closed)
  have t1: "trace ?h1 = trace h @ [Closed s]" by (simp add: detach_props mark_closed_def upd_def)
  have td1: "teardowns (subs ?h1 s) = teardowns (subs h s)"
    using detach_teardowns[of s "mark_closed s h" s] nosub st
    by (simp add: mark_closed_def upd_def)
  have a1: "release_calls (subs ?h1 s) = release_calls (subs h s)"
    by (simp add: detach_props mark_closed_def upd_def)
  from release_harmless[of s ?callf ?h1, OF cf c1]
  obtain es h2 where r: "release ?callf s ?h1 = Some (es, h2)" and c2: "closed (subs h2 s)"
    and td2: "teardowns (subs h2 s) = teardowns (subs h s)"
    and t2: "trace h2 = trace h @ Closed s # release_calls (subs h s)"
    using td1 t1 a1 by auto
  let ?h3 = "upd s (\<lambda>x. x\<lparr>teardowns := None\<rparr>) h2"
  have c3: "closed (subs ?h3 s)" using c2 by (simp add: upd_def)
  from run_teardowns_actions[of s ?callf ?h3 "stored (subs h s)" "unsubscribe fns (Suc (Suc k))" es, OF cf c3 act]
  obtain es' h4 where rt: "run_teardowns ?ex (stored (subs h s)) es ?h3 = Some (es', h4)"
    and t4: "trace h4 = trace ?h3 @ concat (map invoked (stored (subs h s)))"
    by blast
  have tp: "teardown_pass ?ex s es h2 = Some (es', h4)"
  proof (cases "teardowns (subs h s)")
    case None
    then show ?thesis using td2 rt by (simp add: teardown_pass_def stored_def)
  next
    case (Some tds)
    then show ?thesis using td2 rt by (simp add: teardown_pass_def stored_def)
  qed
  have u: "unsubscribe fns (Suc (Suc (Suc k))) s h = Some (throw_collected es', h4)"
    using op r tp by (simp del: call_fn.simps unsubscribe.simps(2) add: unsubscribe.simps(2)[of fns "Suc (Suc k)"])
  have "trace h4 = trace h @ Closed s # release_calls (subs h s) @ concat (map invoked (stored (subs h s)))"
    using t2 t4 by (simp add: upd_def)
  then have "new_events h h4 = Closed s # release_calls (subs h s) @ concat (map invoked (stored (subs h s)))"
    by (simp add: new_events_def)
  with u show ?thesis by blast
qed


section \<open>Disposal: what is thrown\<close>

text \<open>
  A property \<open>G\<close> of the values that the function bodies throw holds of every value that
  \<^verbatim>\<open>unsubscribe\<close>, \<^verbatim>\<open>add\<close> or a function call throws, when the \<^verbatim>\<open>catch\<close> blocks keep a
  matching property \<open>I\<close> of the array they build. So functions that throw new errors never
  make \<^verbatim>\<open>unsubscribe\<close> throw a kept one, and functions that throw flat errors make it throw
  flat ones.
\<close>

lemma run_cmds_thrown:
  assumes "\<And>c g e g'. c \<in> set cs \<Longrightarrow> ex c g = Some (Some e, g') \<Longrightarrow> G e"
  shows "run_cmds ex cs h = Some (Some e, h') \<Longrightarrow> G e"
  using assms
proof (induction cs arbitrary: h)
  case Nil
  then show ?case by simp
next
  case (Cons c cs)
  from Cons.prems(1) obtain r h1 where 1: "ex c h = Some (r, h1)"
    by (auto split: option.splits)
  show ?case
  proof (cases r)
    case None
    with Cons.prems(1) 1 have "run_cmds ex cs h1 = Some (Some e, h')" by simp
    then show ?thesis by (rule Cons.IH) (use Cons.prems(2) in auto)
  next
    case (Some x)
    with Cons.prems(1) 1 have "x = e" by simp
    with 1 Some Cons.prems(2)[of c h e h1] show ?thesis by simp
  qed
qed

lemma run_teardowns_collected:
  assumes ex: "\<And>td g e g'. ex td g = Some (Some e, g') \<Longrightarrow> G e"
    and I2: "\<And>acc e g. I acc \<Longrightarrow> G e \<Longrightarrow> I (fst (collect acc e g))"
  shows "I acc \<Longrightarrow> run_teardowns ex tds acc h = Some (acc', h') \<Longrightarrow> I acc'"
proof (induction tds arbitrary: acc h)
  case Nil
  then show ?case by simp
next
  case (Cons td tds)
  from Cons.prems(2) obtain r h1 where 1: "ex td h = Some (r, h1)"
    by (auto split: option.splits)
  show ?case
  proof (cases r)
    case None
    with Cons.prems 1 have "run_teardowns ex tds acc h1 = Some (acc', h')" by simp
    with Cons.prems(1) show ?thesis by (rule Cons.IH)
  next
    case (Some e)
    obtain e1 h2 where c: "collect acc e h1 = (e1, h2)" by (cases "collect acc e h1")
    from 1 Some have "G e" by (auto intro: ex)
    from I2[OF Cons.prems(1) this, of h1] c have i: "I e1" by simp
    from Cons.prems(2) 1 Some c have "run_teardowns ex tds e1 h2 = Some (acc', h')" by simp
    with i show ?thesis by (rule Cons.IH)
  qed
qed

lemma thrown_invariant:
  assumes G: "\<And>f e. e \<in> set (concat (map thrown (fns f))) \<Longrightarrow> G e"
    and I0: "I None"
    and I1: "\<And>e. G e \<Longrightarrow> I (Some (flatten_error e))"
    and I2: "\<And>acc e g. I acc \<Longrightarrow> G e \<Longrightarrow> I (fst (collect acc e g))"
    and I3: "\<And>acc v. I acc \<Longrightarrow> throw_collected acc = Some v \<Longrightarrow> G v"
  shows "(\<forall>s h e h'. unsubscribe fns n s h = Some (Some e, h') \<longrightarrow> G e) \<and>
         (\<forall>s td h e h'. add fns n s td h = Some (Some e, h') \<longrightarrow> G e) \<and>
         (\<forall>f h e h'. call_fn fns n f h = Some (Some e, h') \<longrightarrow> G e)"
proof (induction n)
  case 0
  show ?case by simp
next
  case (Suc n)
  then have U: "\<And>s h e h'. unsubscribe fns n s h = Some (Some e, h') \<Longrightarrow> G e"
    and A: "\<And>s td h e h'. add fns n s td h = Some (Some e, h') \<Longrightarrow> G e"
    and C: "\<And>f h e h'. call_fn fns n f h = Some (Some e, h') \<Longrightarrow> G e"
    by blast+
  let ?ex = "execute (call_fn fns n) (unsubscribe fns n)"
  have E: "G e" if "?ex td g = Some (Some e, g')" for td g e g'
    using that by (cases td) (auto simp: execute_def dest: U C)
  have 1: "G e" if a: "unsubscribe fns (Suc n) s h = Some (Some e, h')" for s h e h'
  proof (cases "closed (subs h s)")
    case True
    with a show ?thesis by simp
  next
    case False
    let ?h1 = "detach s (mark_closed s h)"
    from a False obtain es h2 es' where
      r: "release (call_fn fns n) s ?h1 = Some (es, h2)" and
      t: "teardown_pass ?ex s es h2 = Some (es', h')" and
      v: "throw_collected es' = Some e"
      by (auto split: option.splits)
    have i: "I es"
    proof (cases "unsubscribe_action (subs ?h1 s)")
      case None
      with r I0 show ?thesis by (simp add: release_def)
    next
      case (Some f)
      with r obtain r0 where
        c: "call_fn fns n f (if ctorUnsubscribe (subs ?h1 s)
              then upd s (\<lambda>x. x\<lparr>unsubscribe_action := None\<rparr>) ?h1 else ?h1) = Some (r0, h2)"
        and es: "es = map_option flatten_error r0"
        by (auto simp: release_def split: option.splits)
      show ?thesis
      proof (cases r0)
        case None
        with es I0 show ?thesis by simp
      next
        case (Some x)
        with c have "G x" by (auto dest: C)
        with es Some show ?thesis by (simp add: I1)
      qed
    qed
    have "I es'"
    proof (cases "teardowns (subs h2 s)")
      case None
      with t i show ?thesis by (simp add: teardown_pass_def)
    next
      case (Some tds)
      with t have rt: "run_teardowns ?ex tds es (upd s (\<lambda>x. x\<lparr>teardowns := None\<rparr>) h2) = Some (es', h')"
        by (simp add: teardown_pass_def)
      show ?thesis
      proof (rule run_teardowns_collected[where ex = ?ex and G = G and I = I and acc = es
            and tds = tds and h = "upd s (\<lambda>x. x\<lparr>teardowns := None\<rparr>) h2" and h' = h'])
        show "G e" if "?ex td g = Some (Some e, g')" for td g e g' using that by (rule E)
        show "I (fst (collect acc e g))" if "I acc" "G e" for acc e g using that by (rule I2)
        show "I es" by (rule i)
        show "run_teardowns ?ex tds es (upd s (\<lambda>x. x\<lparr>teardowns := None\<rparr>) h2) = Some (es', h')"
          by (rule rt)
      qed
    qed
    then show ?thesis using v by (rule I3)
  qed
  have 2: "G e" if a: "add fns (Suc n) s td h = Some (Some e, h')" for s td h e h'
  proof -
    from a obtain t where "?ex t h = Some (Some e, h')"
      by (auto split: option.splits if_splits teardown.splits)
    then show ?thesis by (rule E)
  qed
  have 3: "G e" if a: "call_fn fns (Suc n) f h = Some (Some e, h')" for f h e h'
  proof -
    let ?run = "run_cmd (unsubscribe fns n) (add fns n) (call_fn fns n)"
    have x: "G e" if "c \<in> set (fns f)" "?run c g = Some (Some e, g')" for c g e g'
    proof (cases c)
      case (Throw v)
      with that(2) have "e = v" by (simp add: run_cmd_def)
      moreover have "v \<in> set (concat (map thrown (fns f)))"
        using that(1) Throw by force
      ultimately show ?thesis by (simp add: G)
    next
      case (CallUnsubscribe t)
      with that(2) show ?thesis by (auto simp: run_cmd_def dest: U)
    next
      case (CallAdd t td)
      with that(2) show ?thesis by (auto simp: run_cmd_def dest: A)
    next
      case (CallRemove t td)
      with that(2) show ?thesis by (simp add: run_cmd_def)
    next
      case (UnsubscribeHandle y)
      with that(2) show ?thesis
        by (auto simp: run_cmd_def dest: C split: val.splits option.splits)
    qed
    from a have "run_cmds ?run (fns f) (h\<lparr>trace := trace h @ [Called f]\<rparr>) = Some (Some e, h')"
      by simp
    then show ?thesis
    proof (rule run_cmds_thrown[where cs = "fns f" and ex = ?run and G = G, rotated])
      show "G e" if "c \<in> set (fns f)" "?run c g = Some (Some e, g')" for c g e g'
        using that by (rule x)
    qed
  qed
  from 1 2 3 show ?case by blast
qed

lemma no_kept_thrown:
  assumes "throws_new fns"
  shows "unsubscribe fns n s h = Some (Some e, h') \<Longrightarrow> \<not> kept e"
    and "add fns n s td h = Some (Some e, h') \<Longrightarrow> \<not> kept e"
    and "call_fn fns n f h = Some (Some e, h') \<Longrightarrow> \<not> kept e"
proof -
  have G: "\<not> kept e" if "e \<in> set (concat (map thrown (fns f)))" for f e
    using assms that unfolding throws_new_def list_all_iff by blast
  have I1: "\<forall>a. Some (flatten_error e) \<noteq> Some (Kept a)" if "\<not> kept e" for e
    using that by (cases e) (simp_all add: flatten_error_def)
  have I2: "\<forall>a. fst (collect acc e g) \<noteq> Some (Kept a)"
    if "\<forall>a. acc \<noteq> Some (Kept a)" "\<not> kept e" for acc e g
  proof (cases acc)
    case None
    with that(2) show ?thesis by (cases e) (simp_all add: collect_def)
  next
    case (Some arr)
    with that(1) obtain es where "arr = Fresh es" by (cases arr) auto
    with Some that(2) show ?thesis by (cases e) (simp_all add: collect_def)
  qed
  have I3: "\<not> kept v" if "\<forall>a. acc \<noteq> Some (Kept a)" "throw_collected acc = Some v" for acc v
    using that by (auto simp: throw_collected_def split: option.splits array.splits)
  note t = thrown_invariant[of fns "\<lambda>e. \<not> kept e" "\<lambda>acc. \<forall>a. acc \<noteq> Some (Kept a)" n,
      OF G _ I1 I2 I3]
  have T: "(\<forall>s h e h'. unsubscribe fns n s h = Some (Some e, h') \<longrightarrow> \<not> kept e) \<and>
         (\<forall>s td h e h'. add fns n s td h = Some (Some e, h') \<longrightarrow> \<not> kept e) \<and>
         (\<forall>f h e h'. call_fn fns n f h = Some (Some e, h') \<longrightarrow> \<not> kept e)"
    by (rule t) simp_all
  from T show "unsubscribe fns n s h = Some (Some e, h') \<Longrightarrow> \<not> kept e" by blast
  from T show "add fns n s td h = Some (Some e, h') \<Longrightarrow> \<not> kept e" by blast
  from T show "call_fn fns n f h = Some (Some e, h') \<Longrightarrow> \<not> kept e" by blast
qed

lemma flat_list_append [simp]: "flat_list (xs @ ys) = (flat_list xs \<and> flat_list ys)"
  by (simp add: flat_list_def)

lemma flat_thrown:
  assumes "throws_flat fns"
  shows "unsubscribe fns n s h = Some (Some e, h') \<Longrightarrow> flat_error e"
proof -
  let ?I = "\<lambda>acc. case acc of None \<Rightarrow> True | Some (Fresh es) \<Rightarrow> flat_list es | Some (Kept a) \<Rightarrow> False"
  have G: "flat_error e" if "e \<in> set (concat (map thrown (fns f)))" for f e
    using assms that unfolding throws_flat_def list_all_iff by blast
  have I1: "?I (Some (flatten_error e))" if "flat_error e" for e
    using that by (cases e) (simp_all add: flatten_error_def flat_list_def)
  have I2: "?I (fst (collect acc e g))" if "?I acc" "flat_error e" for acc e g
  proof (cases acc)
    case None
    with that(2) show ?thesis
      by (cases e) (simp_all add: collect_def elements_def flat_list_def)
  next
    case (Some arr)
    with that(1) obtain es where "arr = Fresh es" "flat_list es" by (cases arr) auto
    with Some that(2) show ?thesis
      by (cases e) (simp_all add: collect_def elements_def flat_list_def)
  qed
  have I3: "flat_error v" if "?I acc" "throw_collected acc = Some v" for acc v
    using that by (auto simp: throw_collected_def split: option.splits array.splits)
  note t = thrown_invariant[of fns flat_error ?I n, OF G _ I1 I2 I3]
  have "(\<forall>s h e h'. unsubscribe fns n s h = Some (Some e, h') \<longrightarrow> flat_error e) \<and>
         (\<forall>s td h e h'. add fns n s td h = Some (Some e, h') \<longrightarrow> flat_error e) \<and>
         (\<forall>f h e h'. call_fn fns n f h = Some (Some e, h') \<longrightarrow> flat_error e)"
    by (rule t) simp_all
  then show "unsubscribe fns n s h = Some (Some e, h') \<Longrightarrow> flat_error e" by blast
qed

section \<open>Disposal: the source against the specification\<close>

text \<open>
  When no kept error is thrown, the array that the loop of the source builds step by step
  is the aggregate of the results of \<open>run_each\<close>, and \<^verbatim>\<open>unsubscribe\<close> on an open subscription
  is \<open>dispose_spec\<close>.
\<close>

lemma raised_simps [simp]:
  "raised [] = []" "raised (None # rs) = raised rs" "raised (Some e # rs) = e # raised rs"
  by (simp_all add: raised_def)

lemma absorb_simps:
  "absorb errors [] = errors"
  "absorb errors (None # rs) = absorb errors rs"
  "absorb errors (Some e # rs) =
     absorb (Some ((case errors of None \<Rightarrow> [] | Some es \<Rightarrow> es) @ inner_errors e)) rs"
  by (simp_all add: absorb_def)

lemma execute_dispose_or_invoke: "execute callf unsub = dispose_or_invoke callf unsub"
proof (intro ext)
  fix td h
  show "execute callf unsub td h = dispose_or_invoke callf unsub td h"
    by (cases td) (simp_all add: execute_def)
qed

lemma flatten_error_new: "\<not> kept e \<Longrightarrow> flatten_error e = Fresh (inner_errors e)"
  by (cases e) (simp_all add: flatten_error_def)

lemma collect_new:
  "\<not> kept e \<Longrightarrow>
   collect (map_option Fresh errors) e h =
     (Some (Fresh ((case errors of None \<Rightarrow> [] | Some es \<Rightarrow> es) @ inner_errors e)), h)"
  by (cases e; cases errors) (simp_all add: collect_def elements_def)

lemma run_teardowns_run_each:
  assumes nk: "\<And>td g e g'. ex td g = Some (Some e, g') \<Longrightarrow> \<not> kept e"
  shows "run_teardowns ex tds (map_option Fresh errors) h =
     (case run_each ex tds h of
        None \<Rightarrow> None
      | Some (rs, h') \<Rightarrow> Some (map_option Fresh (absorb errors rs), h'))"
proof (induction tds arbitrary: errors h)
  case Nil
  show ?case by (simp add: absorb_simps)
next
  case (Cons td tds)
  show ?case
  proof (cases "ex td h")
    case None
    then show ?thesis by simp
  next
    case (Some a)
    obtain r h1 where a: "a = (r, h1)" by (cases a)
    show ?thesis
    proof (cases r)
      case None
      with Some a Cons.IH[of errors h1] show ?thesis
        by (auto simp: absorb_simps split: option.splits)
    next
      case e: (Some e)
      let ?e1 = "Some ((case errors of None \<Rightarrow> [] | Some es \<Rightarrow> es) @ inner_errors e)"
      have "ex td h = Some (Some e, h1)" using Some a e by simp
      then have "\<not> kept e" by (rule nk)
      then have "collect (map_option Fresh errors) e h1 = (map_option Fresh ?e1, h1)"
        by (simp add: collect_new)
      with Some a e Cons.IH[of ?e1 h1] show ?thesis
        by (auto simp: absorb_simps split: option.splits)
    qed
  qed
qed

lemma throw_collected_absorb:
  "throw_collected (map_option Fresh (absorb (map_option inner_errors r0) rs)) = aggregated (r0 # rs)"
  by (cases r0) (auto simp: throw_collected_def absorb_def aggregated_def)

lemma release_run_release:
  "release callf s h =
     (case run_release callf s h of None \<Rightarrow> None
      | Some (r0, h') \<Rightarrow> Some (map_option flatten_error r0, h'))"
  by (auto simp: release_def run_release_def split: option.splits)

lemma release_new:
  assumes "\<And>f g e g'. callf f g = Some (Some e, g') \<Longrightarrow> \<not> kept e"
  shows "release callf s h =
     (case run_release callf s h of None \<Rightarrow> None
      | Some (r0, h') \<Rightarrow> Some (map_option Fresh (map_option inner_errors r0), h'))"
proof (cases "run_release callf s h")
  case None
  then show ?thesis by (simp add: release_run_release)
next
  case (Some a)
  obtain r0 h' where a: "a = (r0, h')" by (cases a)
  show ?thesis
  proof (cases r0)
    case None
    with Some a show ?thesis by (simp add: release_run_release)
  next
    case e: (Some e)
    with Some a obtain f g where "callf f g = Some (Some e, h')"
      by (auto simp: run_release_def split: option.splits)
    then have "\<not> kept e" by (rule assms)
    with Some a e show ?thesis by (simp add: release_run_release flatten_error_new)
  qed
qed

lemma teardown_pass_run_each:
  assumes "\<And>td g e g'. ex td g = Some (Some e, g') \<Longrightarrow> \<not> kept e"
  shows "teardown_pass ex s (map_option Fresh errors) h =
     (case run_each ex (stored (subs h s)) (upd s (\<lambda>x. x\<lparr>teardowns := None\<rparr>) h) of
        None \<Rightarrow> None | Some (rs, h') \<Rightarrow> Some (map_option Fresh (absorb errors rs), h'))"
proof -
  have rt: "run_teardowns ex tds (map_option Fresh errors) g =
     (case run_each ex tds g of
        None \<Rightarrow> None
      | Some (rs, h') \<Rightarrow> Some (map_option Fresh (absorb errors rs), h'))" for tds g
    by (rule run_teardowns_run_each) (erule assms)
  show ?thesis
    by (cases "teardowns (subs h s)") (simp_all add: teardown_pass_def stored_def rt absorb_simps)
qed

lemma unsubscribe_dispose_spec:
  assumes "throws_new fns" "\<not> closed (subs h s)"
  shows "unsubscribe fns (Suc n) s h = dispose_spec fns n s h"
proof -
  let ?ex = "dispose_or_invoke (call_fn fns n) (unsubscribe fns n)"
  have c: "\<not> kept e" if "call_fn fns n f g = Some (Some e, g')" for f g e g'
    using that by (rule no_kept_thrown(3)[OF assms(1)])
  have x: "\<not> kept e" if "?ex td g = Some (Some e, g')" for td g e g'
    using that by (cases td) (auto dest: no_kept_thrown[OF assms(1)])
  have "unsubscribe fns (Suc n) s h =
      (case release (call_fn fns n) s (detach s (mark_closed s h)) of
          None \<Rightarrow> None
        | Some (errors, h2) \<Rightarrow>
           (case teardown_pass ?ex s errors h2 of
              None \<Rightarrow> None
            | Some (errors', h3) \<Rightarrow> Some (throw_collected errors', h3)))"
    using assms(2) unfolding execute_dispose_or_invoke[symmetric] by simp
  also have "\<dots> = dispose_spec fns n s h"
  proof -
    have rel: "release (call_fn fns n) s g =
        (case run_release (call_fn fns n) s g of None \<Rightarrow> None
         | Some (r0, h') \<Rightarrow> Some (map_option Fresh (map_option inner_errors r0), h'))" for g
      by (rule release_new) (erule c)
    have tp: "teardown_pass ?ex s (map_option Fresh errors) g =
        (case run_each ?ex (stored (subs g s)) (upd s (\<lambda>x. x\<lparr>teardowns := None\<rparr>) g) of
           None \<Rightarrow> None | Some (rs, h') \<Rightarrow> Some (map_option Fresh (absorb errors rs), h'))"
      for errors g
      by (rule teardown_pass_run_each) (erule x)
    show ?thesis
      unfolding dispose_spec_def rel
      by (auto split: option.splits simp: tp throw_collected_absorb)
  qed
  finally show ?thesis .
qed

section \<open>Disposal: every teardown runs\<close>

lemma new_events_append: "trace h' = trace h @ evs \<Longrightarrow> new_events h h' = evs"
  by (simp add: new_events_def)

lemma new_events_trans:
  assumes "step\<^sup>*\<^sup>* a b" "step\<^sup>*\<^sup>* b c"
  shows "new_events a c = new_events a b @ new_events b c"
proof -
  have "trace c = trace a @ (new_events a b @ new_events b c)"
    using steps_trace[OF assms(1)] steps_trace[OF assms(2)] by simp
  then show ?thesis by (rule new_events_append)
qed

lemma ran_later:
  assumes "ran a b td" "step\<^sup>*\<^sup>* a b" "step\<^sup>*\<^sup>* b c"
  shows "ran a c td"
  using assms new_events_trans[OF assms(2,3)] steps_closed_mono[OF assms(3)]
  by (cases td) auto

lemma ran_earlier:
  assumes "ran b c td" "step\<^sup>*\<^sup>* a b" "step\<^sup>*\<^sup>* b c"
  shows "ran a c td"
  using assms new_events_trans[OF assms(2,3)]
  by (cases td) auto

lemma call_fn_called:
  assumes "call_fn fns n f h = Some (r, h')"
  shows "Called f \<in> set (new_events h h')"
proof (cases n)
  case 0
  with assms show ?thesis by simp
next
  case (Suc m)
  let ?g = "h\<lparr>trace := trace h @ [Called f]\<rparr>"
  from assms Suc have "run_cmds (run_cmd (unsubscribe fns m) (add fns m) (call_fn fns m)) (fns f) ?g = Some (r, h')"
    by simp
  moreover have "sound (run_cmd (unsubscribe fns m) (add fns m) (call_fn fns m))"
    using sound_all[of fns m] by (intro sound_run_cmd) blast+
  ultimately have "step\<^sup>*\<^sup>* ?g h'" by (rule steps_run_cmds[rotated])
  from steps_trace[OF this] have "trace h' = trace h @ (Called f # new_events ?g h')" by simp
  then have "new_events h h' = Called f # new_events ?g h'" by (rule new_events_append)
  then show ?thesis by simp
qed

lemma execute_ran:
  assumes "execute (call_fn fns n) (unsubscribe fns n) td h = Some (r, h')"
  shows "ran h h' td"
  using assms by (cases td) (auto simp: execute_def dest: call_fn_called unsubscribe_closes)

lemma run_teardowns_ran:
  assumes "run_teardowns (execute (call_fn fns n) (unsubscribe fns n)) tds es h = Some (es', h')"
  shows "step\<^sup>*\<^sup>* h h' \<and> list_all (ran h h') tds"
  using assms
proof (induction tds arbitrary: h es)
  case Nil
  then show ?case by simp
next
  case (Cons td tds)
  let ?ex = "execute (call_fn fns n) (unsubscribe fns n)"
  from Cons.prems obtain r h1 where 1: "?ex td h = Some (r, h1)"
    by (auto split: option.splits)
  have "\<exists>e1 h2. run_teardowns ?ex tds e1 h2 = Some (es', h') \<and> step\<^sup>*\<^sup>* h1 h2"
  proof (cases r)
    case None
    with Cons.prems 1 have "run_teardowns ?ex tds es h1 = Some (es', h')" by simp
    then show ?thesis by blast
  next
    case (Some e)
    obtain e1 h2 where c: "collect es e h1 = (e1, h2)" by (cases "collect es e h1")
    with Cons.prems 1 Some have "run_teardowns ?ex tds e1 h2 = Some (es', h')" by simp
    with steps_collect[OF c] show ?thesis by blast
  qed
  then obtain e1 h2 where 2: "run_teardowns ?ex tds e1 h2 = Some (es', h')"
    and s12: "step\<^sup>*\<^sup>* h1 h2"
    by blast
  have s1: "step\<^sup>*\<^sup>* h h1" by (rule soundD[OF sound_executor 1])
  from Cons.IH[OF 2] have s2: "step\<^sup>*\<^sup>* h2 h'" and l: "list_all (ran h2 h') tds" by auto
  have s1': "step\<^sup>*\<^sup>* h h2" using s1 s12 by (rule rtranclp_trans)
  have s2': "step\<^sup>*\<^sup>* h1 h'" using s12 s2 by (rule rtranclp_trans)
  have "ran h h' td" by (rule ran_later[OF execute_ran[OF 1] s1 s2'])
  moreover have "list_all (ran h h') tds"
    using l ran_earlier[OF _ s1' s2] by (auto simp: list_all_iff)
  moreover have "step\<^sup>*\<^sup>* h h'" using s1 s2' by (rule rtranclp_trans)
  ultimately show ?case by simp
qed

lemma steps_upd_teardowns: "step\<^sup>*\<^sup>* h (upd s (\<lambda>x. x\<lparr>teardowns := None\<rparr>) h)"
  by (auto intro: step_teardowns)

lemma unsubscribe_stages:
  assumes "\<not> closed (subs h s)" "unsubscribe fns (Suc n) s h = Some (r, h')"
  shows "\<exists>h2. pass_start fns n s h = Some h2 \<and> step\<^sup>*\<^sup>* (mark_closed s h) h2 \<and>
           list_all (ran h h') (stored (subs h2 s))"
proof -
  let ?ex = "execute (call_fn fns n) (unsubscribe fns n)"
  let ?h1 = "detach s (mark_closed s h)"
  from assms obtain es h2 es' where
    r: "release (call_fn fns n) s ?h1 = Some (es, h2)" and
    t: "teardown_pass ?ex s es h2 = Some (es', h')"
    by (auto split: option.splits)
  let ?h3 = "upd s (\<lambda>x. x\<lparr>teardowns := None\<rparr>) h2"
  have rt: "run_teardowns ?ex (stored (subs h2 s)) es ?h3 = Some (es', h')"
    using t by (cases "teardowns (subs h2 s)") (simp_all add: teardown_pass_def stored_def)
  have ps: "pass_start fns n s h = Some h2"
    using r by (simp add: pass_start_def)
  have "step\<^sup>*\<^sup>* (mark_closed s h) ?h1" by (rule steps_detach)
  also have "step\<^sup>*\<^sup>* ?h1 h2" by (rule steps_release[OF sound_call_fn r])
  finally have s2: "step\<^sup>*\<^sup>* (mark_closed s h) h2" .
  have "step\<^sup>*\<^sup>* h (mark_closed s h)" using assms(1) by (auto intro: step_close)
  also note s2
  also have "step\<^sup>*\<^sup>* h2 ?h3" by (rule steps_upd_teardowns)
  finally have s3: "step\<^sup>*\<^sup>* h ?h3" .
  from run_teardowns_ran[OF rt] have s4: "step\<^sup>*\<^sup>* ?h3 h'"
    and l: "list_all (ran ?h3 h') (stored (subs h2 s))" by auto
  have "list_all (ran h h') (stored (subs h2 s))"
    using l ran_earlier[OF _ s3 s4] by (auto simp: list_all_iff)
  with ps s2 show ?thesis by blast
qed




text \<open>The definitions that evaluate a call on a concrete store.\<close>

lemmas store_defs = fresh_def settled_def upd_def new_Subscription_def mark_closed_def detach_def remove_def
  removeParent_def stored_def release_def teardown_pass_def execute_def run_cmd_def
  throw_collected_def flatten_error_def collect_def elements_def new_events_def push_def
  addParent_def hasParent_def EMPTY_def pending_def

lemmas eval_defs = fresh_def settled_def EMPTY_def upd_def new_Subscription_def
  mark_closed_def detach_def stored_def run_release_def dispose_spec_def execute_def run_cmd_def
  aggregated_def new_events_def raised_def

section \<open>Disposal returns\<close>

text \<open>
  Every effective \<^verbatim>\<open>unsubscribe\<close> closes a subscription that was open, and tame functions
  start nothing else; so the nesting of calls is bounded by twice the number of open
  subscriptions.
\<close>

lemma steps_open_subs: "step\<^sup>*\<^sup>* h h' \<Longrightarrow> open_subs h' \<subseteq> open_subs h"
  by (auto simp: open_subs_def dest: steps_closed_mono)

lemma steps_at_most_open: "step\<^sup>*\<^sup>* h h' \<Longrightarrow> at_most_open c h \<Longrightarrow> at_most_open c h'"
  unfolding at_most_open_def
  by (meson card_mono finite_subset le_trans steps_open_subs)

lemma at_most_open_mark_closed:
  assumes "\<not> closed (subs h s)" "at_most_open (Suc c) h"
  shows "at_most_open c (detach s (mark_closed s h))"
proof -
  have "closed (subs (detach s (mark_closed s h)) t) = (t = s \<or> closed (subs h t))" for t
    by (simp add: detach_props(2) mark_closed_def upd_def)
  then have eq: "open_subs (detach s (mark_closed s h)) = open_subs h - {s}"
    unfolding open_subs_def by blast
  have in_s: "s \<in> open_subs h" using assms(1) by (simp add: open_subs_def)
  have fin: "finite (open_subs h)" and le: "card (open_subs h) \<le> Suc c"
    using assms(2) by (simp_all add: at_most_open_def)
  have "card (open_subs h - {s}) = card (open_subs h) - 1"
    using in_s by (simp add: card_Diff_singleton)
  with le have "card (open_subs h - {s}) \<le> c" by simp
  with fin show ?thesis unfolding at_most_open_def eq by simp
qed

lemma run_teardowns_returns:
  assumes "\<And>td g. Q g \<Longrightarrow> \<exists>r g'. ex td g = Some (r, g') \<and> Q g'"
    and "\<And>acc e g. Q g \<Longrightarrow> Q (snd (collect acc e g))" and "Q h"
  shows "\<exists>es' h'. run_teardowns ex tds es h = Some (es', h')"
  using assms(3)
proof (induction tds arbitrary: es h)
  case Nil
  show ?case by simp
next
  case (Cons td tds)
  from assms(1)[OF Cons.prems, of td] obtain r g' where 1: "ex td h = Some (r, g')" and 2: "Q g'"
    by blast
  show ?case
  proof (cases r)
    case None
    with 1 Cons.IH[OF 2] show ?thesis by simp
  next
    case (Some e)
    obtain e1 g1 where c: "collect es e g' = (e1, g1)" by (cases "collect es e g'")
    from assms(2)[OF 2, of es e] c have "Q g1" by simp
    from Cons.IH[OF this, of e1] 1 Some c show ?thesis by simp
  qed
qed

lemma run_cmds_returns:
  assumes "\<And>c g. c \<in> set cs \<Longrightarrow> Q g \<Longrightarrow> \<exists>r g'. ex c g = Some (r, g') \<and> Q g'" and "Q h"
  shows "\<exists>r h'. run_cmds ex cs h = Some (r, h')"
  using assms
proof (induction cs arbitrary: h)
  case Nil
  show ?case by simp
next
  case (Cons c cs)
  from Cons.prems(1)[of c h] Cons.prems(2) obtain r g' where 1: "ex c h = Some (r, g')" and 2: "Q g'"
    by auto
  have "\<exists>r h'. run_cmds ex cs g' = Some (r, h')"
    by (rule Cons.IH[OF _ 2]) (use Cons.prems(1) in auto)
  then show ?case using 1 by (cases r) simp_all
qed

lemma tame_returns:
  assumes t: "tame_fns fns"
  shows "(\<forall>s h. at_most_open c h \<and> 2 * c < n \<longrightarrow> (\<exists>r h'. unsubscribe fns n s h = Some (r, h'))) \<and>
         (\<forall>f h. at_most_open c h \<and> 2 * c + 1 < n \<longrightarrow> (\<exists>r h'. call_fn fns n f h = Some (r, h')))"
proof (induction n arbitrary: c)
  case 0
  show ?case by simp
next
  case (Suc n)
  have U: "\<exists>r h'. unsubscribe fns n s h = Some (r, h')" if "at_most_open c h" "2 * c < n" for c s h
    using Suc.IH[of c] that by blast
  have C: "\<exists>r h'. call_fn fns n f h = Some (r, h')" if "at_most_open c h" "2 * c + 1 < n" for c f h
    using Suc.IH[of c] that by blast
  have 1: "\<exists>r h'. unsubscribe fns (Suc n) s h = Some (r, h')"
    if a: "at_most_open c h" and b: "2 * c < Suc n" for s h
  proof (cases "closed (subs h s)")
    case True
    then show ?thesis by simp
  next
    case False
    then have "s \<in> open_subs h" by (simp add: open_subs_def)
    with a have "card (open_subs h) \<noteq> 0" by (auto simp: at_most_open_def card_eq_0_iff)
    with a have "c \<noteq> 0" by (auto simp: at_most_open_def)
    then obtain c1 where c: "c = Suc c1" by (cases c) auto
    let ?h1 = "detach s (mark_closed s h)"
    have q1: "at_most_open c1 ?h1"
      by (rule at_most_open_mark_closed[OF False a[unfolded c]])
    have n1: "2 * c1 + 1 < n" using b c by simp
    let ?h1' = "if ctorUnsubscribe (subs ?h1 s) then upd s (\<lambda>x. x\<lparr>unsubscribe_action := None\<rparr>) ?h1 else ?h1"
    have "step\<^sup>*\<^sup>* ?h1 ?h1'" by (auto intro: step_action)
    then have q1': "at_most_open c1 ?h1'" using q1 by (rule steps_at_most_open)
    have "\<exists>es h2. release (call_fn fns n) s ?h1 = Some (es, h2)"
    proof (cases "unsubscribe_action (subs ?h1 s)")
      case None
      then show ?thesis by (simp add: release_def)
    next
      case (Some f)
      from C[OF q1' n1, of f] obtain r h2 where "call_fn fns n f ?h1' = Some (r, h2)" by blast
      with Some show ?thesis by (cases r) (simp_all add: release_def)
    qed
    then obtain es h2 where r: "release (call_fn fns n) s ?h1 = Some (es, h2)" by blast
    have q2: "at_most_open c1 h2"
      using steps_release[OF sound_call_fn r] q1 by (rule steps_at_most_open)
    let ?h3 = "upd s (\<lambda>x. x\<lparr>teardowns := None\<rparr>) h2"
    have q3: "at_most_open c1 ?h3"
      using steps_upd_teardowns q2 by (rule steps_at_most_open)
    let ?ex = "execute (call_fn fns n) (unsubscribe fns n)"
    have ex: "\<exists>r g'. ?ex td g = Some (r, g') \<and> at_most_open c1 g'" if q: "at_most_open c1 g" for td g
    proof -
      have "\<exists>r g'. ?ex td g = Some (r, g')"
      proof (cases td)
        case (Fn f)
        with C[OF q n1, of f] show ?thesis by (simp add: execute_def)
      next
        case (Sub d)
        have "2 * c1 < n" using n1 by simp
        with U[OF q, of d] Sub show ?thesis by (simp add: execute_def)
      next
        case (Unsubscribable f)
        with C[OF q n1, of f] show ?thesis by (simp add: execute_def)
      qed
      then obtain r g' where e: "?ex td g = Some (r, g')" by blast
      from soundD[OF sound_executor e] q have "at_most_open c1 g'" by (rule steps_at_most_open)
      with e show ?thesis by blast
    qed
    have "\<exists>es' h'. teardown_pass ?ex s es h2 = Some (es', h')"
    proof (cases "teardowns (subs h2 s)")
      case None
      then show ?thesis by (simp add: teardown_pass_def)
    next
      case (Some tds)
      have "\<exists>es' h'. run_teardowns ?ex tds es ?h3 = Some (es', h')"
      proof (rule run_teardowns_returns[where Q = "at_most_open c1"])
        show "\<exists>r g'. ?ex td g = Some (r, g') \<and> at_most_open c1 g'" if "at_most_open c1 g" for td g
          using that by (rule ex)
        show "at_most_open c1 (snd (collect acc e g))" if "at_most_open c1 g" for acc e g
          using steps_collect[of acc e g] that
          by (cases "collect acc e g") (auto intro: steps_at_most_open)
        show "at_most_open c1 ?h3" by (rule q3)
      qed
      then show ?thesis using Some by (simp add: teardown_pass_def)
    qed
    then obtain es' h' where "teardown_pass ?ex s es h2 = Some (es', h')" by blast
    with False r show ?thesis by simp
  qed
  have 2: "\<exists>r h'. call_fn fns (Suc n) f h = Some (r, h')"
    if a: "at_most_open c h" and b: "2 * c + 1 < Suc n" for f h
  proof -
    let ?g = "h\<lparr>trace := trace h @ [Called f]\<rparr>"
    let ?ex = "run_cmd (unsubscribe fns n) (add fns n) (call_fn fns n)"
    have q: "at_most_open c ?g"
      using a by (simp add: at_most_open_def open_subs_def)
    have sx: "sound ?ex"
      using sound_all[of fns n] by (intro sound_run_cmd) blast+
    have ex: "\<exists>r g'. ?ex cm g = Some (r, g') \<and> at_most_open c g'"
      if "cm \<in> set (fns f)" "at_most_open c g" for cm g
    proof -
      have tm: "tame cm" using t that(1) by (auto simp: tame_fns_def list_all_iff)
      have "\<exists>r g'. ?ex cm g = Some (r, g')"
      proof (cases cm)
        case (Throw e)
        then show ?thesis by (simp add: run_cmd_def)
      next
        case (CallUnsubscribe d)
        have "2 * c < n" using b by simp
        with U[OF that(2), of d] CallUnsubscribe show ?thesis by (simp add: run_cmd_def)
      next
        case (CallRemove d td)
        then show ?thesis by (simp add: run_cmd_def)
      qed (use tm in auto)
      then obtain r g' where e: "?ex cm g = Some (r, g')" by blast
      from soundD[OF sx e] that(2) have "at_most_open c g'" by (rule steps_at_most_open)
      with e show ?thesis by blast
    qed
    from run_cmds_returns[of "fns f" "at_most_open c" ?ex ?g, OF ex q]
    show ?thesis by simp
  qed
  from 1 2 show ?case by blast
qed

lemma unsubscribe_returns:
  assumes "tame_fns fns" "finite (open_subs h)" "2 * card (open_subs h) < n"
  shows "\<exists>r h'. unsubscribe fns n s h = Some (r, h')"
  using tame_returns[OF assms(1), of "card (open_subs h)" n] assms(2,3)
  by (auto simp: at_most_open_def)

lemma call_fn_returns:
  assumes "tame_fns fns" "finite (open_subs h)" "2 * card (open_subs h) + 1 < n"
  shows "\<exists>r h'. call_fn fns n f h = Some (r, h')"
  using tame_returns[OF assms(1), of "card (open_subs h)" n] assms(2,3)
  by (auto simp: at_most_open_def)

lemma add_returns:
  assumes "tame_fns fns" "finite (open_subs h)" "2 * card (open_subs h) + 1 < n"
  shows "\<exists>r h'. add fns (Suc n) t td h = Some (r, h')"
proof (cases td)
  case None
  then show ?thesis by simp
next
  case (Some d)
  show ?thesis
  proof (cases "d = Sub t")
    case True
    with Some show ?thesis by simp
  next
    case ne: False
    show ?thesis
    proof (cases "closed (subs h t)")
      case False
      with Some ne show ?thesis by (cases d) auto
    next
      case True
      have "\<exists>r h'. execute (call_fn fns n) (unsubscribe fns n) d h = Some (r, h')"
      proof (cases d)
        case (Fn f)
        with call_fn_returns[OF assms, of f] show ?thesis by (simp add: execute_def)
      next
        case (Sub c)
        have "2 * card (open_subs h) < n" using assms(3) by simp
        from unsubscribe_returns[OF assms(1,2) this, of c] Sub show ?thesis
          by (simp add: execute_def)
      next
        case (Unsubscribable f)
        with call_fn_returns[OF assms, of f] show ?thesis by (simp add: execute_def)
      qed
      with Some ne True show ?thesis by simp
    qed
  qed
qed

section \<open>Disposal of a parent\<close>




section \<open>Disposal: the release action and the thrown value\<close>

lemma release_called:
  assumes "\<not> closed (subs h s)" "unsubscribe fns (Suc n) s h = Some (r, h')"
    and "unsubscribe_action (subs h s) = Some f"
  shows "Called f \<in> set (new_events h h')"
proof -
  let ?ex = "execute (call_fn fns n) (unsubscribe fns n)"
  let ?h1 = "detach s (mark_closed s h)"
  let ?h0 = "if ctorUnsubscribe (subs ?h1 s)
             then upd s (\<lambda>x. x\<lparr>unsubscribe_action := None\<rparr>) ?h1 else ?h1"
  from assms(1,2) obtain es h2 es' where
    r: "release (call_fn fns n) s ?h1 = Some (es, h2)" and
    t: "teardown_pass ?ex s es h2 = Some (es', h')"
    by (auto split: option.splits)
  have a1: "unsubscribe_action (subs ?h1 s) = Some f"
    using assms(3) by (simp add: detach_props mark_closed_def upd_def)
  with r obtain r0 where c: "call_fn fns n f ?h0 = Some (r0, h2)"
    by (auto simp: release_def split: option.splits)
  have "step\<^sup>*\<^sup>* h (mark_closed s h)" using assms(1) by (auto intro: step_close)
  also have "step\<^sup>*\<^sup>* \<dots> ?h1" by (rule steps_detach)
  also have "step\<^sup>*\<^sup>* ?h1 ?h0" by (auto intro: step_action)
  finally have s0: "step\<^sup>*\<^sup>* h ?h0" .
  have s1: "step\<^sup>*\<^sup>* ?h0 h2" by (rule soundD[OF sound_call_fn c])
  have s2: "step\<^sup>*\<^sup>* h2 h'" by (rule steps_teardown_pass[OF sound_executor t])
  have s01: "step\<^sup>*\<^sup>* h h2" using s0 s1 by (rule rtranclp_trans)
  have "new_events h h' = new_events h ?h0 @ new_events ?h0 h2 @ new_events h2 h'"
    using new_events_trans[OF s01 s2] new_events_trans[OF s0 s1] by simp
  with call_fn_called[OF c] show ?thesis by simp
qed

lemma unsubscribe_throws_aggregate:
  assumes "unsubscribe fns n s h = Some (Some e, h')"
  shows "aggregate e"
proof (cases n)
  case 0
  with assms show ?thesis by simp
next
  case (Suc m)
  show ?thesis
  proof (cases "closed (subs h s)")
    case True
    with assms Suc show ?thesis by simp
  next
    case False
    with assms Suc obtain es' where "throw_collected es' = Some e"
      by (auto split: option.splits)
    then show ?thesis
      by (auto simp: throw_collected_def split: option.splits array.splits)
  qed
qed

lemma flat_aggregate:
  assumes "flat_error e" "aggregate e"
  shows "\<exists>es. e = UnsubscriptionError es \<and> flat_list es"
  using assms by (cases e) simp_all

text \<open>
  A kept error that is thrown, caught as the first error and thrown again: the second
  error was pushed into its array, so the list has four elements and the kept error two.
\<close>

lemma kept_error_thrown_again:
  "\<exists>h'. unsubscribe keeping_fns (Suc (Suc (Suc 0))) 0 keeping_store =
          Some (Some (UnsubscriptionError [Str ''x'', Str ''y'', Str ''x'', Str ''y'']), h') \<and>
        arrays h' 7 = [Str ''x'', Str ''y'']"
  by (simp add: keeping_fns_def keeping_store_def store_defs)

section \<open>Claims about Subscription\<close>

text \<open>
  C2, as stated, fails: a stored teardown need not run. Subscription \<open>0\<close> holds teardown
  \<open>1\<close> and its release action removes that teardown from it; two calls of \<^verbatim>\<open>unsubscribe\<close>
  both return normally, and the release action is the only function they have called.
\<close>

theorem unsubscribe_twice_counterexample:
  "stored (subs removing_store 0) = [Fn 1] \<and>
   twice_events removing_fns (Suc (Suc (Suc 0))) 0 0 removing_store =
     Some (None, None, [Closed 0, Called 9])"
  by (simp add: twice_events_def unsubscribe_twice_def removing_fns_def removing_store_def
      store_defs)

text \<open>
  C2, amended. Calling \<^verbatim>\<open>unsubscribe\<close> on a subscription that is already closed is a no-op:
  two calls in a row end in the store and trace of the first, with the first call's outcome
  and a normal return of the second; once a first call has returned (normally or by
  throwing), the subscription is closed and a second call returns normally, leaving the
  store and the trace as they are, so nothing runs a second time. When the first call on an
  open subscription returns, the release action, if there is one, has been called, and
  every teardown of the list that the subscription holds once the release action has
  returned has run. When the stored teardowns are plain actions and the functions at most
  throw or call \<^verbatim>\<open>unsubscribe\<close> on the subscription again, the first call returns and its
  events are the closing, one call of the release action if there is one, and one call of
  each stored teardown in insertion order; the second call adds none.
\<close>

theorem unsubscribe_twice_as_once:
  "unsubscribe_twice fns n m s h =
     map_option (\<lambda>(r, h1). (r, None, h1)) (unsubscribe fns n s h) \<and>
   (unsubscribe fns n s h = Some (r, h1) \<longrightarrow>
      closed (subs h1 s) \<and> unsubscribe fns (Suc m) s h1 = Some (None, h1)) \<and>
   (\<not> closed (subs h s) \<and> unsubscribe fns (Suc j) s h = Some (r, h1) \<longrightarrow>
      (\<forall>f. unsubscribe_action (subs h s) = Some f \<longrightarrow> Called f \<in> set (new_events h h1)) \<and>
      (\<exists>h2. pass_start fns j s h = Some h2 \<and> list_all (ran h h1) (stored (subs h2 s)))) \<and>
   (harmless fns s \<and> \<not> closed (subs h s) \<and> list_all is_action (stored (subs h s)) \<longrightarrow>
      (\<exists>r' h2. unsubscribe fns (Suc (Suc (Suc k))) s h = Some (r', h2) \<and>
         new_events h h2 =
           Closed s # release_calls (subs h s) @ concat (map invoked (stored (subs h s))) \<and>
         unsubscribe fns (Suc m) s h2 = Some (None, h2)))"
proof (intro conjI impI allI)
  show "unsubscribe_twice fns n m s h =
     map_option (\<lambda>(r, h1). (r, None, h1)) (unsubscribe fns n s h)"
  proof (cases "unsubscribe fns n s h")
    case None
    then show ?thesis by (simp add: unsubscribe_twice_def)
  next
    case (Some a)
    obtain r1 g where a: "a = (r1, g)" by (cases a)
    with Some have "closed (subs g s)" by (auto dest: unsubscribe_closes)
    then have "unsubscribe fns (Suc m) s g = Some (None, g)" by (rule unsubscribe_closed)
    with Some a show ?thesis by (simp add: unsubscribe_twice_def)
  qed
next
  assume a: "unsubscribe fns n s h = Some (r, h1)"
  then show "closed (subs h1 s)" by (rule unsubscribe_closes)
  then show "unsubscribe fns (Suc m) s h1 = Some (None, h1)" by (rule unsubscribe_closed)
next
  fix f
  assume a: "\<not> closed (subs h s) \<and> unsubscribe fns (Suc j) s h = Some (r, h1)"
    and f: "unsubscribe_action (subs h s) = Some f"
  from a have "\<not> closed (subs h s)" "unsubscribe fns (Suc j) s h = Some (r, h1)" by blast+
  then show "Called f \<in> set (new_events h h1)" using f by (rule release_called)
next
  assume a: "\<not> closed (subs h s) \<and> unsubscribe fns (Suc j) s h = Some (r, h1)"
  then have "\<not> closed (subs h s)" "unsubscribe fns (Suc j) s h = Some (r, h1)" by blast+
  from unsubscribe_stages[OF this]
  show "\<exists>h2. pass_start fns j s h = Some h2 \<and> list_all (ran h h1) (stored (subs h2 s))"
    by blast
next
  assume a: "harmless fns s \<and> \<not> closed (subs h s) \<and> list_all is_action (stored (subs h s))"
  then obtain r' h2 where u: "unsubscribe fns (Suc (Suc (Suc k))) s h = Some (r', h2)"
    and e: "new_events h h2 =
           Closed s # release_calls (subs h s) @ concat (map invoked (stored (subs h s)))"
    using dispose_actions_once[of fns s h k] by blast
  from u have "closed (subs h2 s)" by (rule unsubscribe_closes)
  then have "unsubscribe fns (Suc m) s h2 = Some (None, h2)" by (rule unsubscribe_closed)
  with u e show "\<exists>r' h2. unsubscribe fns (Suc (Suc (Suc k))) s h = Some (r', h2) \<and>
         new_events h h2 =
           Closed s # release_calls (subs h s) @ concat (map invoked (stored (subs h s))) \<and>
         unsubscribe fns (Suc m) s h2 = Some (None, h2)"
    by blast
qed

theorem unsubscribe_twice_as_once_witness:
  "(\<exists>r' h2. unsubscribe reentrant_fns (Suc (Suc (Suc 0))) 0 reentrant_store = Some (r', h2) \<and>
     closed (subs h2 0) \<and>
     new_events reentrant_store h2 = [Closed 0, Called 9, Called 1, Called 2, Called 1] \<and>
     unsubscribe reentrant_fns (Suc 0) 0 h2 = Some (None, h2)) \<and>
   (\<exists>h1. unsubscribe removing_fns (Suc (Suc (Suc 0))) 0 removing_store = Some (None, h1) \<and>
     Called 9 \<in> set (new_events removing_store h1) \<and>
     pass_start removing_fns (Suc (Suc 0)) 0 removing_store =
       Some ((upd 0 (\<lambda>_. (new_Subscription (Some 9))\<lparr>closed := True, teardowns := Some [],
                 unsubscribe_action := None\<rparr>) settled)\<lparr>trace := [Closed 0, Called 9]\<rparr>))"
proof -
  have 1: "harmless reentrant_fns 0"
    by (simp add: harmless_def reentrant_fns_def)
  have 2: "\<not> closed (subs reentrant_store 0)"
    by (simp add: reentrant_store_def upd_def new_Subscription_def)
  have 3: "list_all is_action (stored (subs reentrant_store 0))"
    by (simp add: reentrant_store_def upd_def new_Subscription_def stored_def)
  have 4: "Closed 0 # release_calls (subs reentrant_store 0) @
             concat (map invoked (stored (subs reentrant_store 0))) =
           [Closed 0, Called 9, Called 1, Called 2, Called 1]"
    by (simp add: reentrant_store_def upd_def new_Subscription_def stored_def)
  from unsubscribe_twice_as_once[where fns = reentrant_fns and s = 0 and h = reentrant_store
      and m = 0 and k = 0, THEN conjunct2, THEN conjunct2, THEN conjunct2] 1 2 3
  obtain r' h2 where
    u: "unsubscribe reentrant_fns (Suc (Suc (Suc 0))) 0 reentrant_store = Some (r', h2)" and
    e: "new_events reentrant_store h2 =
          Closed 0 # release_calls (subs reentrant_store 0) @
            concat (map invoked (stored (subs reentrant_store 0)))" and
    n: "unsubscribe reentrant_fns (Suc 0) 0 h2 = Some (None, h2)"
    by blast
  from unsubscribe_twice_as_once[where fns = reentrant_fns and n = "Suc (Suc (Suc 0))" and s = 0
      and h = reentrant_store and r = r' and ?h1.0 = h2 and m = 0, THEN conjunct2, THEN conjunct1] u
  have "closed (subs h2 0)" by blast
  with u e n 4 have A: "\<exists>r' h2. unsubscribe reentrant_fns (Suc (Suc (Suc 0))) 0 reentrant_store = Some (r', h2) \<and>
     closed (subs h2 0) \<and>
     new_events reentrant_store h2 = [Closed 0, Called 9, Called 1, Called 2, Called 1] \<and>
     unsubscribe reentrant_fns (Suc 0) 0 h2 = Some (None, h2)"
    by auto
  have o: "\<not> closed (subs removing_store 0)"
    by (simp add: removing_store_def store_defs)
  have ac: "unsubscribe_action (subs removing_store 0) = Some 9"
    by (simp add: removing_store_def store_defs)
  have "\<exists>h1. unsubscribe removing_fns (Suc (Suc (Suc 0))) 0 removing_store = Some (None, h1)"
    by (simp add: removing_fns_def removing_store_def store_defs)
  then obtain h1 where
    v: "unsubscribe removing_fns (Suc (Suc (Suc 0))) 0 removing_store = Some (None, h1)"
    by blast
  from unsubscribe_twice_as_once[where fns = removing_fns and j = "Suc (Suc 0)" and s = 0
      and h = removing_store and r = None and ?h1.0 = h1,
      THEN conjunct2, THEN conjunct2, THEN conjunct1] o v ac
  have c9: "Called 9 \<in> set (new_events removing_store h1)" by blast
  have ps: "pass_start removing_fns (Suc (Suc 0)) 0 removing_store =
       Some ((upd 0 (\<lambda>_. (new_Subscription (Some 9))\<lparr>closed := True, teardowns := Some [],
                 unsubscribe_action := None\<rparr>) settled)\<lparr>trace := [Closed 0, Called 9]\<rparr>)"
    by (simp add: pass_start_def removing_fns_def removing_store_def store_defs)
  from v c9 ps have B: "\<exists>h1. unsubscribe removing_fns (Suc (Suc (Suc 0))) 0 removing_store = Some (None, h1) \<and>
     Called 9 \<in> set (new_events removing_store h1) \<and>
     pass_start removing_fns (Suc (Suc 0)) 0 removing_store =
       Some ((upd 0 (\<lambda>_. (new_Subscription (Some 9))\<lparr>closed := True, teardowns := Some [],
                 unsubscribe_action := None\<rparr>) settled)\<lparr>trace := [Closed 0, Called 9]\<rparr>)"
    by blast
  from A B show ?thesis by (rule conjI)
qed

text \<open>
  C3, as stated, fails: the list need not be flat. The list of a thrown
  \<^verbatim>\<open>UnsubscriptionError\<close> is spliced in as it is, so when it holds an \<^verbatim>\<open>UnsubscriptionError\<close>
  the list that \<^verbatim>\<open>unsubscribe\<close> throws holds one too.
\<close>

theorem unsubscribe_aggregates_errors_counterexample:
  "map_option fst (unsubscribe nesting_fns (Suc (Suc (Suc 0))) 0 nesting_store) =
     Some (Some (UnsubscriptionError [UnsubscriptionError [Error ''inner'']])) \<and>
   \<not> flat_list [UnsubscriptionError [Error ''inner'']]"
  by (simp add: nesting_fns_def nesting_store_def store_defs flat_list_def)

text \<open>
  C3, amended. When \<^verbatim>\<open>unsubscribe\<close> on an open subscription returns or throws, every
  teardown of the list that the subscription holds once the release action has returned
  has run, whatever the earlier ones threw, and a value that the call throws is an
  \<^verbatim>\<open>UnsubscriptionError\<close>. When the functions throw new errors, the call throws one
  \<^verbatim>\<open>UnsubscriptionError\<close> if anything was thrown and returns normally otherwise, and the
  list of that error is the thrown values in insertion order, the list of a thrown
  \<^verbatim>\<open>UnsubscriptionError\<close> spliced in its place, one level deep: \<^verbatim>\<open>unsubscribe\<close> is
  \<open>dispose_spec\<close>. The list is flat when every \<^verbatim>\<open>UnsubscriptionError\<close> that a function
  throws is a new one with a flat list. The call returns whenever the functions are tame,
  finitely many subscriptions are open and the call depth allowed is more than twice
  their number.
\<close>

theorem unsubscribe_aggregates_errors:
  "(throws_new fns \<and> \<not> closed (subs h s) \<longrightarrow>
      unsubscribe fns (Suc n) s h = dispose_spec fns n s h) \<and>
   (tame_fns fns \<and> finite (open_subs h) \<and> 2 * card (open_subs h) < Suc n \<longrightarrow>
      (\<exists>r h'. unsubscribe fns (Suc n) s h = Some (r, h'))) \<and>
   (\<not> closed (subs h s) \<and> unsubscribe fns (Suc n) s h = Some (r, h') \<longrightarrow>
      (\<exists>h2. pass_start fns n s h = Some h2 \<and> list_all (ran h h') (stored (subs h2 s))) \<and>
      (\<forall>e. r = Some e \<longrightarrow> aggregate e)) \<and>
   (throws_flat fns \<and> unsubscribe fns (Suc n) s h = Some (Some e, h') \<longrightarrow>
      (\<exists>es. e = UnsubscriptionError es \<and> flat_list es))"
proof (intro conjI impI allI)
  assume "throws_new fns \<and> \<not> closed (subs h s)"
  then show "unsubscribe fns (Suc n) s h = dispose_spec fns n s h"
    using unsubscribe_dispose_spec[of fns h s n] by blast
next
  assume "tame_fns fns \<and> finite (open_subs h) \<and> 2 * card (open_subs h) < Suc n"
  then show "\<exists>r h'. unsubscribe fns (Suc n) s h = Some (r, h')"
    using unsubscribe_returns[of fns h "Suc n" s] by blast
next
  assume a: "\<not> closed (subs h s) \<and> unsubscribe fns (Suc n) s h = Some (r, h')"
  then have "\<not> closed (subs h s)" "unsubscribe fns (Suc n) s h = Some (r, h')" by blast+
  from unsubscribe_stages[OF this]
  show "\<exists>h2. pass_start fns n s h = Some h2 \<and> list_all (ran h h') (stored (subs h2 s))"
    by blast
next
  fix x
  assume a: "\<not> closed (subs h s) \<and> unsubscribe fns (Suc n) s h = Some (r, h')"
    and r: "r = Some x"
  then have "unsubscribe fns (Suc n) s h = Some (Some x, h')" by blast
  then show "aggregate x" by (rule unsubscribe_throws_aggregate)
next
  assume a: "throws_flat fns \<and> unsubscribe fns (Suc n) s h = Some (Some e, h')"
  then have t: "throws_flat fns" and u: "unsubscribe fns (Suc n) s h = Some (Some e, h')"
    by blast+
  have "flat_error e" by (rule flat_thrown[OF t u])
  moreover have "aggregate e" by (rule unsubscribe_throws_aggregate[OF u])
  ultimately show "\<exists>es. e = UnsubscriptionError es \<and> flat_list es" by (rule flat_aggregate)
qed

theorem unsubscribe_aggregates_errors_witness:
  "(\<exists>h'. unsubscribe throwing_fns (Suc (Suc (Suc 0))) 0 throwing_store =
          Some (Some (UnsubscriptionError [Error ''first'', Error ''second'', Error ''third'']), h') \<and>
        list_all (ran throwing_store h') [Fn 1, Fn 2, Fn 3]) \<and>
   (\<exists>h'. unsubscribe aggregating_fns (Suc (Suc (Suc (Suc (Suc 0))))) 0 aggregating_store =
          Some (Some (UnsubscriptionError [Error ''first'', Error ''second'', Error ''third'',
                        Error ''fourth'', Error ''fifth'']), h') \<and>
        new_events aggregating_store h' =
          [Closed 0, Called 1, Closed 1, Called 2, Called 3, Called 4] \<and>
        flat_list [Error ''first'', Error ''second'', Error ''third'', Error ''fourth'',
                   Error ''fifth''])"
proof -
  note t = unsubscribe_aggregates_errors[of throwing_fns throwing_store 0 "Suc (Suc 0)"]
  have o: "\<not> closed (subs throwing_store 0)"
    by (simp add: throwing_store_def upd_def new_Subscription_def)
  have tn: "throws_new throwing_fns"
    by (simp add: throws_new_def throwing_fns_def)
  have tm: "tame_fns throwing_fns"
    by (simp add: tame_fns_def throwing_fns_def)
  have "open_subs throwing_store = {0}"
    by (auto simp: open_subs_def throwing_store_def settled_def EMPTY_def upd_def
        new_Subscription_def)
  then have fin: "finite (open_subs throwing_store) \<and>
      2 * card (open_subs throwing_store) < Suc (Suc (Suc 0))"
    by simp
  from t[THEN conjunct2, THEN conjunct1] tm fin
  obtain r h' where u: "unsubscribe throwing_fns (Suc (Suc (Suc 0))) 0 throwing_store = Some (r, h')"
    by blast
  have e: "\<exists>h'. dispose_spec throwing_fns (Suc (Suc 0)) 0 throwing_store =
     Some (Some (UnsubscriptionError [Error ''first'', Error ''second'', Error ''third'']), h')"
    by (simp add: throwing_fns_def throwing_store_def eval_defs)
  with t[THEN conjunct1] tn o u
  have r: "r = Some (UnsubscriptionError [Error ''first'', Error ''second'', Error ''third''])"
    by auto
  have ps: "\<exists>h2. pass_start throwing_fns (Suc (Suc 0)) 0 throwing_store = Some h2 \<and>
      stored (subs h2 0) = [Fn 1, Fn 2, Fn 3]"
    by (simp add: pass_start_def throwing_fns_def throwing_store_def store_defs)
  from unsubscribe_aggregates_errors[of throwing_fns throwing_store 0 "Suc (Suc 0)" r h',
      THEN conjunct2, THEN conjunct2, THEN conjunct1] o u
  obtain h2 where
    1: "pass_start throwing_fns (Suc (Suc 0)) 0 throwing_store = Some h2"
    and 2: "list_all (ran throwing_store h') (stored (subs h2 0))"
    by blast
  from 1 ps have "stored (subs h2 0) = [Fn 1, Fn 2, Fn 3]" by auto
  with 2 u r have A: "\<exists>h'. unsubscribe throwing_fns (Suc (Suc (Suc 0))) 0 throwing_store =
          Some (Some (UnsubscriptionError [Error ''first'', Error ''second'', Error ''third'']), h') \<and>
        list_all (ran throwing_store h') [Fn 1, Fn 2, Fn 3]"
    by auto
  let ?n = "Suc (Suc (Suc (Suc 0)))"
  let ?es = "[Error ''first'', Error ''second'', Error ''third'', Error ''fourth'', Error ''fifth'']"
  note g = unsubscribe_aggregates_errors[of aggregating_fns aggregating_store 0 ?n]
  have o': "\<not> closed (subs aggregating_store 0)"
    by (simp add: aggregating_store_def upd_def new_Subscription_def)
  have tf: "throws_flat aggregating_fns"
    by (simp add: throws_flat_def aggregating_fns_def flat_list_def)
  have tn': "throws_new aggregating_fns"
    by (simp add: throws_new_def aggregating_fns_def)
  have d: "\<exists>h'. dispose_spec aggregating_fns ?n 0 aggregating_store =
             Some (Some (UnsubscriptionError ?es), h') \<and>
           new_events aggregating_store h' =
             [Closed 0, Called 1, Closed 1, Called 2, Called 3, Called 4]"
    by (simp add: aggregating_fns_def aggregating_store_def store_defs run_release_def
        dispose_spec_def aggregated_def raised_def)
  from g[THEN conjunct1] tn' o'
  have "unsubscribe aggregating_fns (Suc ?n) 0 aggregating_store =
      dispose_spec aggregating_fns ?n 0 aggregating_store"
    by blast
  with d obtain h' where
    u': "unsubscribe aggregating_fns (Suc ?n) 0 aggregating_store =
           Some (Some (UnsubscriptionError ?es), h')" and
    ev: "new_events aggregating_store h' = [Closed 0, Called 1, Closed 1, Called 2, Called 3, Called 4]"
    by auto
  from unsubscribe_aggregates_errors[of aggregating_fns aggregating_store 0 ?n _ h'
      "UnsubscriptionError ?es", THEN conjunct2, THEN conjunct2, THEN conjunct2] tf u'
  have "flat_list ?es" by blast
  with u' ev have B: "\<exists>h'. unsubscribe aggregating_fns (Suc ?n) 0 aggregating_store =
          Some (Some (UnsubscriptionError ?es), h') \<and>
        new_events aggregating_store h' =
          [Closed 0, Called 1, Closed 1, Called 2, Called 3, Called 4] \<and>
        flat_list ?es"
    by blast
  from A B show ?thesis by (rule conjI)
qed



text \<open>
  C6. \<^verbatim>\<open>add\<close> does nothing, and throws nothing, when the teardown is absent or is the
  subscription itself. On a closed subscription it executes the teardown during the call,
  calling a function and disposing a subscription, and stores nothing: when it returns the
  teardown has run and the subscription holds no more teardowns than before. It returns
  whenever the functions are tame, finitely many subscriptions are open and the call depth
  allowed is more than twice their number plus one.
\<close>

theorem add_noop_or_immediate:
  "add fns (Suc n) t None h = Some (None, h) \<and>
   add fns (Suc n) t (Some (Sub t)) h = Some (None, h) \<and>
   (closed (subs h t) \<and> td \<noteq> Sub t \<longrightarrow>
      add fns (Suc n) t (Some td) h = execute (call_fn fns n) (unsubscribe fns n) td h \<and>
      (\<forall>r h'. add fns (Suc n) t (Some td) h = Some (r, h') \<longrightarrow>
         ran h h' td \<and> pending (subs h' t) \<le> pending (subs h t))) \<and>
   (tame_fns fns \<and> finite (open_subs h) \<and> 2 * card (open_subs h) + 1 < n \<longrightarrow>
      (\<exists>r h'. add fns (Suc n) t (Some td) h = Some (r, h')))"
proof (intro conjI impI allI)
  show "add fns (Suc n) t None h = Some (None, h)" by simp
  show "add fns (Suc n) t (Some (Sub t)) h = Some (None, h)" by simp
next
  assume "tame_fns fns \<and> finite (open_subs h) \<and> 2 * card (open_subs h) + 1 < n"
  then show "\<exists>r h'. add fns (Suc n) t (Some td) h = Some (r, h')"
    using add_returns[of fns h n t "Some td"] by blast
next
  assume a: "closed (subs h t) \<and> td \<noteq> Sub t"
  then show e: "add fns (Suc n) t (Some td) h = execute (call_fn fns n) (unsubscribe fns n) td h"
    by simp
  fix r h'
  assume b: "add fns (Suc n) t (Some td) h = Some (r, h')"
  with e have x: "execute (call_fn fns n) (unsubscribe fns n) td h = Some (r, h')" by simp
  then show "ran h h' td" by (rule execute_ran)
  from b have "step\<^sup>*\<^sup>* h h'" by (rule sound_add)
  then show "pending (subs h' t) \<le> pending (subs h t)"
    using a by (intro steps_pending) auto
qed

theorem add_noop_or_immediate_witness:
  "add logging_fns (Suc (Suc (Suc 0))) 0 (Some (Fn 4)) settled =
     Some (None, settled\<lparr>trace := [Called 4]\<rparr>) \<and>
   ran settled (settled\<lparr>trace := [Called 4]\<rparr>) (Fn 4) \<and>
   pending (subs (settled\<lparr>trace := [Called 4]\<rparr>) 0) \<le> pending (subs settled 0)"
proof -
  note t = add_noop_or_immediate[of logging_fns "Suc (Suc 0)" 0 settled "Fn 4"]
  have c: "closed (subs settled 0) \<and> Fn 4 \<noteq> Sub 0"
    by (simp add: store_defs)
  have tm: "tame_fns logging_fns"
    by (simp add: tame_fns_def logging_fns_def)
  have "open_subs settled = {}"
    by (simp add: open_subs_def settled_def EMPTY_def)
  then have fin: "finite (open_subs settled) \<and> 2 * card (open_subs settled) + 1 < Suc (Suc 0)"
    by simp
  from t tm fin obtain r h' where
    a: "add logging_fns (Suc (Suc (Suc 0))) 0 (Some (Fn 4)) settled = Some (r, h')"
    by blast
  have x: "execute (call_fn logging_fns (Suc (Suc 0))) (unsubscribe logging_fns (Suc (Suc 0)))
             (Fn 4) settled =
      Some (None, settled\<lparr>trace := [Called 4]\<rparr>)"
    by (simp add: logging_fns_def store_defs)
  from t c have "add logging_fns (Suc (Suc (Suc 0))) 0 (Some (Fn 4)) settled =
      execute (call_fn logging_fns (Suc (Suc 0))) (unsubscribe logging_fns (Suc (Suc 0)))
        (Fn 4) settled"
    by blast
  then have e: "add logging_fns (Suc (Suc (Suc 0))) 0 (Some (Fn 4)) settled =
     Some (None, settled\<lparr>trace := [Called 4]\<rparr>)"
    unfolding x .
  with t c show ?thesis by blast
qed

text \<open>
  C10. \<^verbatim>\<open>Subscription.EMPTY\<close> is closed and holds nothing. Where a store has it,
  \<^verbatim>\<open>unsubscribe\<close> on it is a no-op, \<^verbatim>\<open>add\<close> of a function on it is the call of that
  function, and no \<^verbatim>\<open>add\<close> or \<^verbatim>\<open>unsubscribe\<close>, on it or on any other subscription, changes
  it.
\<close>

theorem EMPTY_never_changes:
  "closed EMPTY \<and> pending EMPTY = 0 \<and>
   (subs h e = EMPTY \<longrightarrow>
      unsubscribe fns (Suc n) e h = Some (None, h) \<and>
      add fns (Suc n) e (Some (Fn f)) h = call_fn fns n f h \<and>
      (\<forall>k td r h'. add fns k e td h = Some (r, h') \<longrightarrow> subs h' e = EMPTY) \<and>
      (\<forall>k s r h'. unsubscribe fns k s h = Some (r, h') \<longrightarrow> subs h' e = EMPTY) \<and>
      (\<forall>k s td r h'. add fns k s td h = Some (r, h') \<longrightarrow> subs h' e = EMPTY))"
proof (intro conjI impI allI)
  show "closed EMPTY" by (simp add: EMPTY_def)
  show "pending EMPTY = 0" by (simp add: EMPTY_def pending_def new_Subscription_def)
next
  assume a: "subs h e = EMPTY"
  then have c: "closed (subs h e)" by (simp add: EMPTY_def)
  then show "unsubscribe fns (Suc n) e h = Some (None, h)" by simp
  from c show "add fns (Suc n) e (Some (Fn f)) h = call_fn fns n f h"
    by (simp add: execute_def)
  { fix k td r h'
    assume "add fns k e td h = Some (r, h')"
    then have "step\<^sup>*\<^sup>* h h'" by (rule sound_add)
    then show "subs h' e = EMPTY" using a by (rule steps_EMPTY) }
  { fix k s r h'
    assume "unsubscribe fns k s h = Some (r, h')"
    then have "step\<^sup>*\<^sup>* h h'" by (rule soundD[OF sound_unsubscribe])
    then show "subs h' e = EMPTY" using a by (rule steps_EMPTY) }
  { fix k s td r h'
    assume "add fns k s td h = Some (r, h')"
    then have "step\<^sup>*\<^sup>* h h'" by (rule sound_add)
    then show "subs h' e = EMPTY" using a by (rule steps_EMPTY) }
qed

theorem EMPTY_never_changes_witness:
  "unsubscribe logging_fns (Suc 0) 0 settled = Some (None, settled) \<and>
   add logging_fns (Suc (Suc 0)) 0 (Some (Fn 4)) settled =
     Some (None, settled\<lparr>trace := [Called 4]\<rparr>) \<and>
   subs (settled\<lparr>trace := [Called 4]\<rparr>) 0 = EMPTY"
proof -
  have a: "subs settled 0 = EMPTY" by (simp add: settled_def)
  have x: "call_fn logging_fns (Suc 0) 4 settled = Some (None, settled\<lparr>trace := [Called 4]\<rparr>)"
    by (simp add: logging_fns_def store_defs)
  note t = EMPTY_never_changes[of settled 0 logging_fns _ 4]
  from t[of 0] a have 1: "unsubscribe logging_fns (Suc 0) 0 settled = Some (None, settled)"
    by blast
  from t[of "Suc 0"] a have "add logging_fns (Suc (Suc 0)) 0 (Some (Fn 4)) settled =
     call_fn logging_fns (Suc 0) 4 settled"
    by blast
  then have 2: "add logging_fns (Suc (Suc 0)) 0 (Some (Fn 4)) settled =
     Some (None, settled\<lparr>trace := [Called 4]\<rparr>)"
    unfolding x .
  from t[of 0] a 2 have "subs (settled\<lparr>trace := [Called 4]\<rparr>) 0 = EMPTY" by blast
  with 1 2 show ?thesis by blast
qed

section \<open>The adapters: shape of the delivered messages\<close>

text \<open>
  The loops thread the history through their recursion; each is first reduced to a run
  that starts from the empty history, then its messages are described.
\<close>

lemma nexts_first_Nil [simp]: "nexts_first []"
  by (simp add: nexts_first_def)

lemma nexts_first_single [simp]: "nexts_first [d]"
  by (simp add: nexts_first_def)

lemma nexts_first_Cons: "fst (fst d) = NEXT \<Longrightarrow> nexts_first log \<Longrightarrow> nexts_first (d # log)"
  by (cases log) (simp_all add: nexts_first_def)

lemma nexts_first_terminal:
  assumes "nexts_first log"
  shows "one_terminal_last (messages log)"
proof -
  have nt: "list_all (\<lambda>m. \<not> terminal m) (butlast (messages log))"
    using assms by (auto simp: nexts_first_def messages_def terminal_def list_all_iff map_butlast[symmetric])
  have "length (filter terminal (messages log)) \<le> 1"
  proof (cases log rule: rev_cases)
    case Nil
    then show ?thesis by (simp add: messages_def)
  next
    case (snoc ys y)
    then have "filter terminal (map fst ys) = []"
      using nt by (auto simp: messages_def list_all_iff filter_empty_conv)
    then show ?thesis using snoc by (simp add: messages_def)
  qed
  with nt show ?thesis by (simp add: one_terminal_last_def)
qed

lemma iterable_loop_log:
  "iterable_loop n nxt snk s it log h =
     (log @ fst (iterable_loop n nxt snk s it [] h), snd (iterable_loop n nxt snk s it [] h))"
proof (induction n arbitrary: it log h)
  case 0
  show ?case by simp
next
  case (Suc n)
  show ?case
  proof (cases "closed (subs h s)")
    case True
    then show ?thesis by simp
  next
    case False
    show ?thesis
    proof (cases "nxt it h")
      case None
      with False show ?thesis by simp
    next
      case pulled: (Some a)
      obtain res h1 where a: "a = (res, h1)" by (cases a)
      show ?thesis
      proof (cases res)
        case (Inl e)
        with False pulled a show ?thesis by simp
      next
        case (Inr item)
        show ?thesis
        proof (cases item)
          case Done
          with False pulled a Inr show ?thesis by (simp add: send_def)
        next
          case (Yield v it')
          let ?d = "((NEXT, v), closed (subs h1 s))"
          show ?thesis
          proof (cases "snk NEXT v s h1")
            case None
            with False pulled a Inr Yield show ?thesis by (simp add: send_def)
          next
            case sent: (Some b)
            obtain r h' where b: "b = (r, h')" by (cases b)
            show ?thesis
            proof (cases r)
              case None
              have 1: "iterable_loop n nxt snk s it' (log @ [?d]) h' =
                    ((log @ [?d]) @ fst (iterable_loop n nxt snk s it' [] h'),
                     snd (iterable_loop n nxt snk s it' [] h'))"
                by (rule Suc.IH)
              have 2: "iterable_loop n nxt snk s it' [?d] h' =
                    ([?d] @ fst (iterable_loop n nxt snk s it' [] h'),
                     snd (iterable_loop n nxt snk s it' [] h'))"
                by (rule Suc.IH)
              show ?thesis using False pulled a Inr Yield sent b None by (simp add: send_def 1 2)
            next
              case (Some e)
              with False pulled a Inr Yield sent b show ?thesis by (simp add: send_def)
            qed
          qed
        qed
      qed
    qed
  qed
qed

text \<open>
  One iteration of the loop: no message; \<open>COMPLETE\<close> and the end; \<open>NEXT\<close> and the end,
  when the sink does not return normally; or \<open>NEXT\<close> and the rest of the loop. The flag
  recorded with a message is the one the token has once \<^verbatim>\<open>next()\<close> has returned.
\<close>

lemma iterable_loop_step:
  "(\<exists>out. iterable_loop (Suc n) nxt snk s it [] h = ([], out)) \<or>
   (\<exists>h1 out. \<not> closed (subs h s) \<and> nxt it h = Some (Inr Done, h1) \<and>
      iterable_loop (Suc n) nxt snk s it [] h =
        ([((COMPLETE, Undefined), closed (subs h1 s))], out)) \<or>
   (\<exists>v it' h1 out. \<not> closed (subs h s) \<and> nxt it h = Some (Inr (Yield v it'), h1) \<and>
      iterable_loop (Suc n) nxt snk s it [] h = ([((NEXT, v), closed (subs h1 s))], out)) \<or>
   (\<exists>v it' h1 h'. \<not> closed (subs h s) \<and> nxt it h = Some (Inr (Yield v it'), h1) \<and>
      iterable_loop (Suc n) nxt snk s it [] h =
        (((NEXT, v), closed (subs h1 s)) # fst (iterable_loop n nxt snk s it' [] h'),
         snd (iterable_loop n nxt snk s it' [] h')))"
proof (cases "closed (subs h s)")
  case True
  then show ?thesis by simp
next
  case False
  show ?thesis
  proof (cases "nxt it h")
    case None
    with False show ?thesis by simp
  next
    case pulled: (Some a)
    obtain res h1 where a: "a = (res, h1)" by (cases a)
    show ?thesis
    proof (cases res)
      case (Inl e)
      with False pulled a show ?thesis by simp
    next
      case (Inr item)
      show ?thesis
      proof (cases item)
        case Done
        with False pulled a Inr show ?thesis by (simp add: send_def)
      next
        case (Yield v it')
        let ?d = "((NEXT, v), closed (subs h1 s))"
        show ?thesis
        proof (cases "snk NEXT v s h1")
          case None
          with False pulled a Inr Yield show ?thesis by (simp add: send_def)
        next
          case sent: (Some b)
          obtain r h' where b: "b = (r, h')" by (cases b)
          show ?thesis
          proof (cases r)
            case None
            have "iterable_loop (Suc n) nxt snk s it [] h = iterable_loop n nxt snk s it' [?d] h'"
              using False pulled a Inr Yield sent b None by (simp add: send_def)
            also have "\<dots> = (?d # fst (iterable_loop n nxt snk s it' [] h'),
                   snd (iterable_loop n nxt snk s it' [] h'))"
              using iterable_loop_log[of n nxt snk s it' "[?d]" h'] by simp
            finally show ?thesis using False pulled a Inr Yield by blast
          next
            case (Some e)
            with False pulled a Inr Yield sent b show ?thesis by (simp add: send_def)
          qed
        qed
      qed
    qed
  qed
qed

lemma iterable_loop_nexts_first: "nexts_first (fst (iterable_loop n nxt snk s it [] h))"
proof (induction n arbitrary: it h)
  case 0
  show ?case by simp
next
  case (Suc n)
  from iterable_loop_step[of n nxt snk s it h] show ?case
  proof (elim disjE exE conjE)
    fix v it' and h1 h' :: heap
    assume "iterable_loop (Suc n) nxt snk s it [] h =
        (((NEXT, v), closed (subs h1 s)) # fst (iterable_loop n nxt snk s it' [] h'),
         snd (iterable_loop n nxt snk s it' [] h'))"
    then show ?thesis using Suc.IH[of it' h'] by (simp add: nexts_first_Cons)
  qed simp_all
qed

lemma iterable_loop_open:
  assumes keep: "\<And>it h r h'. \<not> closed (subs h s) \<Longrightarrow> nxt it h = Some (r, h') \<Longrightarrow>
                   \<not> closed (subs h' s)"
  shows "delivered_open (fst (iterable_loop n nxt snk s it [] h))"
proof (induction n arbitrary: it h)
  case 0
  show ?case by (simp add: delivered_open_def)
next
  case (Suc n)
  from iterable_loop_step[of n nxt snk s it h] show ?case
  proof (elim disjE exE conjE)
    fix out
    assume "iterable_loop (Suc n) nxt snk s it [] h = ([], out)"
    then show ?thesis by (simp add: delivered_open_def)
  next
    fix h1 :: heap and out
    assume "\<not> closed (subs h s)" "nxt it h = Some (Inr Done, h1)"
      and "iterable_loop (Suc n) nxt snk s it [] h =
             ([((COMPLETE, Undefined), closed (subs h1 s))], out)"
    with keep[of h it "Inr Done" h1] show ?thesis by (simp add: delivered_open_def)
  next
    fix v it' and h1 :: heap and out
    assume "\<not> closed (subs h s)" "nxt it h = Some (Inr (Yield v it'), h1)"
      and "iterable_loop (Suc n) nxt snk s it [] h = ([((NEXT, v), closed (subs h1 s))], out)"
    with keep[of h it "Inr (Yield v it')" h1] show ?thesis by (simp add: delivered_open_def)
  next
    fix v it' and h1 h' :: heap
    assume "\<not> closed (subs h s)" "nxt it h = Some (Inr (Yield v it'), h1)"
      and "iterable_loop (Suc n) nxt snk s it [] h =
        (((NEXT, v), closed (subs h1 s)) # fst (iterable_loop n nxt snk s it' [] h'),
         snd (iterable_loop n nxt snk s it' [] h'))"
    with keep[of h it "Inr (Yield v it')" h1] Suc.IH[of it' h'] show ?thesis
      by (simp add: delivered_open_def)
  qed
qed

lemma conforms_Nil [simp]: "conforms []"
  by (simp add: conforms_def one_terminal_last_def messages_def delivered_open_def)

lemma one_terminal_last_Nil [simp]: "one_terminal_last (messages [])"
  by (simp add: one_terminal_last_def messages_def)

lemma delivered_open_Nil [simp]: "delivered_open []"
  by (simp add: delivered_open_def)

lemma iterableSource_one_terminal:
  "one_terminal_last (messages (fst (iterableSource n input t snk s [] h)))"
proof (cases "t = SUBSCRIBE")
  case False
  then show ?thesis by (simp add: iterableSource_def)
next
  case True
  show ?thesis
  proof (cases "iterator input h")
    case None
    with True show ?thesis by (simp add: iterableSource_def)
  next
    case (Some a)
    obtain res h1 where a: "a = (res, h1)" by (cases a)
    have "one_terminal_last (messages (fst (iterable_loop n (iter_next input) snk s it [] h1)))"
      for it
      by (rule nexts_first_terminal) (rule iterable_loop_nexts_first)
    then show ?thesis
      using True Some a by (cases res) (simp_all add: iterableSource_def)
  qed
qed

lemma iterableSource_open:
  assumes "pull_keeps_open input s"
  shows "delivered_open (fst (iterableSource n input t snk s [] h))"
proof (cases "t = SUBSCRIBE")
  case False
  then show ?thesis by (simp add: iterableSource_def)
next
  case True
  have keep: "\<not> closed (subs g' s)"
    if "\<not> closed (subs g s)" "iter_next input it g = Some (r, g')" for it g r g'
    using assms that unfolding pull_keeps_open_def by blast
  show ?thesis
  proof (cases "iterator input h")
    case None
    with True show ?thesis by (simp add: iterableSource_def)
  next
    case (Some a)
    obtain res h1 where a: "a = (res, h1)" by (cases a)
    have "delivered_open (fst (iterable_loop n (iter_next input) snk s it [] h1))" for it
      by (rule iterable_loop_open) (rule keep)
    then show ?thesis
      using True Some a by (cases res) (simp_all add: iterableSource_def)
  qed
qed







section \<open>The adapters: calls of a thenable\<close>

lemma then_calls_single:
  "then_calls f g later [c] log h =
     (case c of Fulfil v \<Rightarrow> f v log (later h) | Reject err \<Rightarrow> g err log (later h))"
  by (cases c) (auto split: prod.splits option.splits)

lemma then_calls_log:
  assumes f: "\<And>v log h. f v log h = (log @ fst (f v [] h), snd (f v [] h))"
    and g: "\<And>e log h. g e log h = (log @ fst (g e [] h), snd (g e [] h))"
  shows "then_calls f g later cs log h =
     (log @ fst (then_calls f g later cs [] h), snd (then_calls f g later cs [] h))"
proof (induction cs arbitrary: log h)
  case Nil
  show ?case by simp
next
  case (Cons c cs)
  let ?call = "\<lambda>log. case c of Fulfil v \<Rightarrow> f v log (later h) | Reject err \<Rightarrow> g err log (later h)"
  obtain l1 out1 where c0: "?call [] = (l1, out1)" by (cases "?call []")
  have cl: "?call log = (log @ l1, out1)"
    using c0 f[of _ log "later h"] g[of _ log "later h"] by (cases c) simp_all
  show ?case
  proof (cases out1)
    case None
    with c0 cl show ?thesis by simp
  next
    case (Some a)
    obtain r h' where a: "a = (r, h')" by (cases a)
    show ?thesis
    proof (cases r)
      case None
      have 1: "then_calls f g later cs (log @ l1) h' =
          ((log @ l1) @ fst (then_calls f g later cs [] h'), snd (then_calls f g later cs [] h'))"
        by (rule Cons.IH)
      have 2: "then_calls f g later cs l1 h' =
          (l1 @ fst (then_calls f g later cs [] h'), snd (then_calls f g later cs [] h'))"
        by (rule Cons.IH)
      show ?thesis using c0 cl Some a None by (simp add: 1 2)
    next
      case e: (Some e)
      with c0 cl Some a show ?thesis by simp
    qed
  qed
qed

lemma then_calls_all:
  assumes f: "\<And>v log h. f v log h = (log @ fst (f v [] h), snd (f v [] h))"
    and g: "\<And>e log h. g e log h = (log @ fst (g e [] h), snd (g e [] h))"
    and pf: "\<And>v h. list_all P (fst (f v [] h))"
    and pg: "\<And>e h. list_all P (fst (g e [] h))"
  shows "list_all P (fst (then_calls f g later cs [] h))"
proof (induction cs arbitrary: h)
  case Nil
  show ?case by simp
next
  case (Cons c cs)
  let ?call = "case c of Fulfil v \<Rightarrow> f v [] (later h) | Reject err \<Rightarrow> g err [] (later h)"
  obtain l1 out1 where c0: "?call = (l1, out1)" by (cases ?call)
  have p1: "list_all P l1"
  proof (cases c)
    case (Fulfil v)
    with c0 pf[of v "later h"] show ?thesis by simp
  next
    case (Reject e)
    with c0 pg[of e "later h"] show ?thesis by simp
  qed
  show ?case
  proof (cases out1)
    case None
    with c0 p1 show ?thesis by simp
  next
    case (Some a)
    obtain r h' where a: "a = (r, h')" by (cases a)
    show ?thesis
    proof (cases r)
      case None
      have "then_calls f g later cs l1 h' =
          (l1 @ fst (then_calls f g later cs [] h'), snd (then_calls f g later cs [] h'))"
        by (rule then_calls_log[OF f g])
      with c0 Some a None p1 Cons.IH[of h'] show ?thesis by simp
    next
      case e: (Some e)
      with c0 Some a p1 show ?thesis by simp
    qed
  qed
qed

lemma promise_onFulfilled_log:
  "promise_onFulfilled snk s v log h =
     (log @ fst (promise_onFulfilled snk s v [] h), snd (promise_onFulfilled snk s v [] h))"
  by (auto simp: promise_onFulfilled_def send_def split: option.splits)

lemma promise_onRejected_log:
  "promise_onRejected snk s e log h =
     (log @ fst (promise_onRejected snk s e [] h), snd (promise_onRejected snk s e [] h))"
  by (simp add: promise_onRejected_def send_def)

lemma promise_onFulfilled_shape: "nexts_first (fst (promise_onFulfilled snk s v [] h))"
  by (auto simp: promise_onFulfilled_def send_def nexts_first_def split: option.splits)

lemma promiseSource_shape:
  assumes "settles_once p"
  shows "nexts_first (fst (promiseSource p later t snk s [] h))"
proof (cases "t = SUBSCRIBE")
  case False
  then show ?thesis by (simp add: promiseSource_def)
next
  case True
  show ?thesis
  proof (cases p)
    case Nil
    with True show ?thesis by (simp add: promiseSource_def)
  next
    case (Cons c cs)
    with assms have p: "p = [c]" by (simp add: settles_once_def)
    show ?thesis
    proof (cases c)
      case (Fulfil v)
      with True promise_onFulfilled_shape[of snk s v "later h"] show ?thesis
        unfolding p promiseSource_def
        by (simp add: then_calls_single del: then_calls.simps)
    next
      case (Reject e)
      with True show ?thesis
        unfolding p promiseSource_def
        by (simp add: then_calls_single promise_onRejected_def send_def del: then_calls.simps)
    qed
  qed
qed

lemma promiseSource_closed:
  "closed (subs (later h) s) \<Longrightarrow> fst (promiseSource [Fulfil v] later t snk s [] h) = []"
  by (simp add: promiseSource_def promise_onFulfilled_def)

lemma getNextValue_log:
  "getNextValue n nxt later snk s it log h =
     (log @ fst (getNextValue n nxt later snk s it [] h), snd (getNextValue n nxt later snk s it [] h))"
proof (induction n arbitrary: it log h)
  case 0
  show ?case by simp
next
  case (Suc n)
  let ?f = "\<lambda>result log h.
          case result of
            AsyncDone \<Rightarrow> send snk COMPLETE Undefined s log h
          | AsyncYield v it' \<Rightarrow>
             (case send snk NEXT v s log h of
                (log', Some (None, h')) \<Rightarrow> getNextValue n nxt later snk s it' log' h'
              | r \<Rightarrow> r)"
  let ?g = "\<lambda>err log h. send snk ERROR err s log h"
  have f: "?f v log h = (log @ fst (?f v [] h), snd (?f v [] h))" for v log h
  proof (cases v)
    case AsyncDone
    then show ?thesis by (simp add: send_def)
  next
    case (AsyncYield x it')
    let ?d = "((NEXT, x), closed (subs h s))"
    have 1: "getNextValue n nxt later snk s it' (log @ [?d]) g =
          ((log @ [?d]) @ fst (getNextValue n nxt later snk s it' [] g),
           snd (getNextValue n nxt later snk s it' [] g))" for g
      by (rule Suc.IH)
    have 2: "getNextValue n nxt later snk s it' [?d] g =
          ([?d] @ fst (getNextValue n nxt later snk s it' [] g),
           snd (getNextValue n nxt later snk s it' [] g))" for g
      by (rule Suc.IH)
    show ?thesis
      using AsyncYield by (auto simp: send_def 1 2 split: option.splits)
  qed
  have g: "?g e log h = (log @ fst (?g e [] h), snd (?g e [] h))" for e log h
    by (simp add: send_def)
  have "then_calls ?f ?g later (nxt it) log h =
      (log @ fst (then_calls ?f ?g later (nxt it) [] h), snd (then_calls ?f ?g later (nxt it) [] h))"
    by (rule then_calls_log[of ?f ?g, OF f g])
  then show ?case by simp
qed

lemma getNextValue_shape:
  assumes once: "\<And>it. settles_once (nxt it)"
  shows "nexts_first (fst (getNextValue n nxt later snk s it [] h))"
proof (induction n arbitrary: it h)
  case 0
  show ?case by simp
next
  case (Suc n)
  show ?case
  proof (cases "nxt it")
    case Nil
    then show ?thesis by simp
  next
    case (Cons c cs)
    with once[of it] have p: "nxt it = [c]" by (simp add: settles_once_def)
    show ?thesis
    proof (cases c)
      case (Reject e)
      with p show ?thesis by (simp add: then_calls_single send_def del: then_calls.simps)
    next
      case (Fulfil result)
      show ?thesis
      proof (cases result)
        case AsyncDone
        with p Fulfil show ?thesis by (simp add: then_calls_single send_def del: then_calls.simps)
      next
        case (AsyncYield v it')
        let ?d = "((NEXT, v), closed (subs (later h) s))"
        show ?thesis
        proof (cases "snk NEXT v s (later h)")
          case None
          with p Fulfil AsyncYield show ?thesis
            by (simp add: then_calls_single send_def del: then_calls.simps)
        next
          case sent: (Some a)
          obtain r h' where a: "a = (r, h')" by (cases a)
          show ?thesis
          proof (cases r)
            case None
            have "getNextValue (Suc n) nxt later snk s it [] h =
                getNextValue n nxt later snk s it' [?d] h'"
              using p Fulfil AsyncYield sent a None
              by (simp add: then_calls_single send_def del: then_calls.simps)
            also have "\<dots> = (?d # fst (getNextValue n nxt later snk s it' [] h'),
                   snd (getNextValue n nxt later snk s it' [] h'))"
              using getNextValue_log[of n nxt later snk s it' "[?d]" h'] by simp
            finally show ?thesis using Suc.IH[of it' h'] by (simp add: nexts_first_Cons)
          next
            case (Some e)
            with p Fulfil AsyncYield sent a show ?thesis
              by (simp add: then_calls_single send_def del: then_calls.simps)
          qed
        qed
      qed
    qed
  qed
qed

lemma asyncIterableSource_shape:
  assumes "\<And>it. settles_once (async_next input it)"
  shows "nexts_first (fst (asyncIterableSource n input later t snk s [] h))"
proof (cases "t = SUBSCRIBE")
  case True
  have "nexts_first (fst (getNextValue n (async_next input) later snk s (async_iterator input) [] h))"
    by (rule getNextValue_shape) (rule assms)
  with True show ?thesis by (simp add: asyncIterableSource_def)
next
  case False
  then show ?thesis by (simp add: asyncIterableSource_def)
qed

lemma observer_send:
  "observer snk s e log h = send snk (fst (of_notification e)) (snd (of_notification e)) s log h"
  by (cases e) simp_all

lemma notify_log:
  "notify snk s es log h = (log @ fst (notify snk s es [] h), snd (notify snk s es [] h))"
proof (induction es arbitrary: log h)
  case Nil
  show ?case by simp
next
  case (Cons e es)
  let ?d = "(of_notification e, closed (subs h s))"
  show ?case
  proof (cases "snk (fst (of_notification e)) (snd (of_notification e)) s h")
    case None
    then show ?thesis by (simp add: observer_send send_def)
  next
    case (Some a)
    obtain r h' where a: "a = (r, h')" by (cases a)
    show ?thesis
    proof (cases r)
      case None
      have 1: "notify snk s es (log @ [?d]) h' =
            ((log @ [?d]) @ fst (notify snk s es [] h'), snd (notify snk s es [] h'))"
        by (rule Cons.IH)
      have 2: "notify snk s es [?d] h' =
            ([?d] @ fst (notify snk s es [] h'), snd (notify snk s es [] h'))"
        by (rule Cons.IH)
      show ?thesis using Some a None by (simp add: observer_send send_def 1 2)
    next
      case (Some err)
      with \<open>snk (fst (of_notification e)) (snd (of_notification e)) s h = Some a\<close> a
      show ?thesis by (simp add: observer_send send_def)
    qed
  qed
qed

lemma notify_forwards:
  "\<exists>j\<le>length es. messages (fst (notify snk s es [] h)) = map of_notification (take j es) \<and>
     ((\<exists>h'. snd (notify snk s es [] h) = Some (None, h')) \<longrightarrow> j = length es)"
proof (induction es arbitrary: h)
  case Nil
  show ?case by (simp add: messages_def)
next
  case (Cons e es)
  let ?d = "(of_notification e, closed (subs h s))"
  show ?case
  proof (cases "snk (fst (of_notification e)) (snd (of_notification e)) s h")
    case None
    then have "notify snk s (e # es) [] h = ([?d], None)"
      by (simp add: observer_send send_def)
    then show ?thesis by (intro exI[of _ "Suc 0"]) (simp add: messages_def)
  next
    case (Some a)
    obtain r h' where a: "a = (r, h')" by (cases a)
    show ?thesis
    proof (cases r)
      case None
      have "notify snk s (e # es) [] h = notify snk s es [?d] h'"
        using Some a None by (simp add: observer_send send_def)
      also have "\<dots> = (?d # fst (notify snk s es [] h'), snd (notify snk s es [] h'))"
        using notify_log[of snk s es "[?d]" h'] by simp
      finally have eq: "notify snk s (e # es) [] h =
          (?d # fst (notify snk s es [] h'), snd (notify snk s es [] h'))" .
      from Cons.IH[of h'] obtain j where j: "j \<le> length es"
        "messages (fst (notify snk s es [] h')) = map of_notification (take j es)"
        "(\<exists>h''. snd (notify snk s es [] h') = Some (None, h'')) \<longrightarrow> j = length es"
        by blast
      show ?thesis
        using j eq by (intro exI[of _ "Suc j"]) (simp add: messages_def)
    next
      case (Some err)
      with \<open>snk (fst (of_notification e)) (snd (of_notification e)) s h = Some a\<close> a
      have "notify snk s (e # es) [] h = ([?d], Some (Some err, h'))"
        by (simp add: observer_send send_def)
      then show ?thesis by (intro exI[of _ "Suc 0"]) (simp add: messages_def)
    qed
  qed
qed

lemma symbolObservableSource_forwards:
  "\<exists>j. messages (fst (symbolObservableSource fns n k x (ObservableLike ob) later t snk s [] h)) =
         map of_notification (take j (during_subscribe ob @ afterwards ob))"
proof (cases "t = SUBSCRIBE")
  case False
  then have "fst (symbolObservableSource fns n k x (ObservableLike ob) later t snk s [] h) = []"
    by (simp add: symbolObservableSource_def)
  then show ?thesis by (intro exI[of _ 0]) (simp add: messages_def)
next
  case True
  let ?h0 = "h\<lparr>vars := (vars h)(x := Undefined)\<rparr>"
  let ?run = "symbolObservableSource fns n k x (ObservableLike ob) later t snk s [] h"
  have empty: "\<exists>j. messages [] = map of_notification (take j (during_subscribe ob @ afterwards ob))"
    by (intro exI[of _ 0]) (simp add: messages_def)
  show ?thesis
  proof (cases "add fns n s (Some (Fn k)) ?h0")
    case None
    with True have "fst ?run = []" by (simp add: symbolObservableSource_def)
    with empty show ?thesis by simp
  next
    case (Some a)
    obtain r h2 where a: "a = (r, h2)" by (cases a)
    show ?thesis
    proof (cases r)
      case (Some e)
      with True \<open>add fns n s (Some (Fn k)) ?h0 = Some a\<close> a have "fst ?run = []"
        by (simp add: symbolObservableSource_def)
      with empty show ?thesis by simp
    next
      case None
      let ?n1 = "notify snk s (during_subscribe ob) [] h2"
      from notify_forwards[of "during_subscribe ob" snk s h2] obtain j1 where
        j1: "messages (fst ?n1) = map of_notification (take j1 (during_subscribe ob))"
          "(\<exists>h'. snd ?n1 = Some (None, h')) \<longrightarrow> j1 = length (during_subscribe ob)"
          and le: "j1 \<le> length (during_subscribe ob)"
        by blast
      show ?thesis
      proof (cases "\<exists>h3. snd ?n1 = Some (None, h3)")
        case False
        then have "?run = ?n1"
          using True \<open>add fns n s (Some (Fn k)) ?h0 = Some a\<close> a None
          by (cases ?n1) (auto simp: symbolObservableSource_def split: option.splits)
        with j1(1) le show ?thesis by (intro exI[of _ j1]) simp
      next
        case ex: True
        then obtain h3 where h3: "snd ?n1 = Some (None, h3)" by blast
        let ?h4 = "later (h3\<lparr>vars := (vars h3)(x := handle ob)\<rparr>)"
        let ?n2 = "notify snk s (afterwards ob) [] ?h4"
        have "?run = notify snk s (afterwards ob) (fst ?n1) ?h4"
          using True \<open>add fns n s (Some (Fn k)) ?h0 = Some a\<close> a None h3
          by (cases ?n1) (auto simp: symbolObservableSource_def)
        also have "\<dots> = (fst ?n1 @ fst ?n2, snd ?n2)"
          by (rule notify_log)
        finally have run: "fst ?run = fst ?n1 @ fst ?n2" by simp
        from notify_forwards[of "afterwards ob" snk s ?h4] obtain j2 where
          j2: "messages (fst ?n2) = map of_notification (take j2 (afterwards ob))"
          by blast
        have "j1 = length (during_subscribe ob)" using j1(2) ex by blast
        then have "messages (fst ?run) =
            map of_notification (take (length (during_subscribe ob) + j2) (during_subscribe ob @ afterwards ob))"
          using run j1(1) j2 by (simp add: messages_def)
        then show ?thesis by blast
      qed
    qed
  qed
qed

lemmas run_defs = promiseSource_def promise_onFulfilled_def promise_onRejected_def send_def
  iterableSource_def asyncIterableSource_def symbolObservableSource_def quiet_sink_def
  conforms_def one_terminal_last_def delivered_open_def messages_def terminal_def

lemma promiseSource_next_open:
  "list_all (\<lambda>d. fst (fst d) = NEXT \<longrightarrow> \<not> snd d) (fst (promiseSource p later t snk s [] h))"
proof (cases "t = SUBSCRIBE")
  case False
  then show ?thesis by (simp add: promiseSource_def)
next
  case True
  have "list_all (\<lambda>d. fst (fst d) = NEXT \<longrightarrow> \<not> snd d)
          (fst (then_calls (promise_onFulfilled snk s) (promise_onRejected snk s) later p [] h))"
  proof (rule then_calls_all)
    show "promise_onFulfilled snk s v log h =
        (log @ fst (promise_onFulfilled snk s v [] h), snd (promise_onFulfilled snk s v [] h))"
      for v log h
      by (rule promise_onFulfilled_log)
    show "promise_onRejected snk s e log h =
        (log @ fst (promise_onRejected snk s e [] h), snd (promise_onRejected snk s e [] h))"
      for e log h
      by (rule promise_onRejected_log)
    show "list_all (\<lambda>d. fst (fst d) = NEXT \<longrightarrow> \<not> snd d) (fst (promise_onFulfilled snk s v [] h))"
      for v h
      by (auto simp: promise_onFulfilled_def send_def split: option.splits)
    show "list_all (\<lambda>d. fst (fst d) = NEXT \<longrightarrow> \<not> snd d) (fst (promise_onRejected snk s e [] h))"
      for e h
      by (simp add: promise_onRejected_def send_def)
  qed
  with True show ?thesis by (simp add: promiseSource_def)
qed

lemma notify_all:
  assumes "snd (notify snk s es [] h) = Some (None, h')"
  shows "messages (fst (notify snk s es [] h)) = map of_notification es"
proof -
  from notify_forwards[of es snk s h] obtain j where
    "messages (fst (notify snk s es [] h)) = map of_notification (take j es)"
    "(\<exists>h'. snd (notify snk s es [] h) = Some (None, h')) \<longrightarrow> j = length es"
    by blast
  with assms show ?thesis by auto
qed

lemma symbolObservableSource_forwards_all:
  assumes "snd (symbolObservableSource fns n k x (ObservableLike ob) later SUBSCRIBE snk s [] h) =
             Some (None, h')"
  shows "messages (fst (symbolObservableSource fns n k x (ObservableLike ob) later SUBSCRIBE snk s [] h)) =
           map of_notification (during_subscribe ob @ afterwards ob)"
proof -
  let ?h0 = "h\<lparr>vars := (vars h)(x := Undefined)\<rparr>"
  let ?run = "symbolObservableSource fns n k x (ObservableLike ob) later SUBSCRIBE snk s [] h"
  from assms obtain h2 where a: "add fns n s (Some (Fn k)) ?h0 = Some (None, h2)"
    by (auto simp: symbolObservableSource_def split: option.splits prod.splits)
  let ?n1 = "notify snk s (during_subscribe ob) [] h2"
  obtain log3 out3 where n1: "?n1 = (log3, out3)" by (cases ?n1)
  from assms a n1 obtain h3 where o3: "out3 = Some (None, h3)"
    by (cases out3) (auto simp: symbolObservableSource_def split: option.splits prod.splits)
  let ?h4 = "later (h3\<lparr>vars := (vars h3)(x := handle ob)\<rparr>)"
  let ?n2 = "notify snk s (afterwards ob) [] ?h4"
  have "?run = notify snk s (afterwards ob) log3 ?h4"
    using a n1 o3 by (simp add: symbolObservableSource_def)
  also have "\<dots> = (log3 @ fst ?n2, snd ?n2)" by (rule notify_log)
  finally have run: "?run = (log3 @ fst ?n2, snd ?n2)" .
  with assms have "snd ?n2 = Some (None, h')" by simp
  then have 2: "messages (fst ?n2) = map of_notification (afterwards ob)" by (rule notify_all)
  have "snd ?n1 = Some (None, h3)" using n1 o3 by simp
  then have "messages (fst ?n1) = map of_notification (during_subscribe ob)" by (rule notify_all)
  then have 1: "messages log3 = map of_notification (during_subscribe ob)" using n1 by simp
  from run 1 2 show ?thesis by (simp add: messages_def)
qed

section \<open>Claims about the adapters\<close>





text \<open>
  C5. \<^verbatim>\<open>symbolObservableSource\<close> when \<^verbatim>\<open>input[Symbol.observable]()\<close> returns \<^verbatim>\<open>undefined\<close>:
  the \<open>ERROR\<close> message is delivered, and then a \<^verbatim>\<open>TypeError\<close> is thrown to the caller of
  \<^verbatim>\<open>SUBSCRIBE\<close>, because the first \<^verbatim>\<open>if\<close> does not return. When it returns \<open>0\<close> two
  \<open>ERROR\<close> messages are delivered. When it returns an object without \<^verbatim>\<open>subscribe\<close> one
  \<open>ERROR\<close> is delivered and the call returns normally.
\<close>

theorem symbolObservableSource_nothing_returned:
  "symbolObservableSource fns n k x (Plain Undefined) later SUBSCRIBE quiet_sink s [] h =
     ([((ERROR, Error ''invalid Symbol.observable implementation, observable not returned''),
        closed (subs h s))],
      Some (Some (TypeError ''cannot read property subscribe''), h)) \<and>
   messages (fst (symbolObservableSource fns n k x (Plain (Num 0)) later SUBSCRIBE quiet_sink s [] h)) =
     [(ERROR, Error ''invalid Symbol.observable implementation, observable not returned''),
      (ERROR, Error ''invalid Symbol.observable implementation, no subscribe method on returned value'')] \<and>
   symbolObservableSource fns n k x (Plain (Object None)) later SUBSCRIBE quiet_sink s [] h =
     ([((ERROR, Error ''invalid Symbol.observable implementation, no subscribe method on returned value''),
        closed (subs h s))],
      Some (None, h))"
  by (simp add: symbolObservableSource_def send_def quiet_sink_def messages_def)

text \<open>
  C1, as stated, fails: \<^verbatim>\<open>promiseSource\<close> delivers the \<open>ERROR\<close> of a rejected promise to
  a closed token, delivers \<open>COMPLETE\<close> after the sink has disposed the token on \<open>NEXT\<close>,
  and delivers two \<open>COMPLETE\<close> for an object whose \<^verbatim>\<open>then\<close> calls back twice;
  \<^verbatim>\<open>asyncIterableSource\<close> delivers \<open>NEXT\<close> and \<open>COMPLETE\<close> to a closed token;
  \<^verbatim>\<open>symbolObservableSource\<close> forwards both errors of an external stream that reports two,
  and forwards them to a closed token as well; \<^verbatim>\<open>iterableSource\<close> delivers \<open>NEXT\<close> to a
  token that the iterator's \<^verbatim>\<open>next()\<close> has disposed.
\<close>

theorem adapters_protocol_counterexample:
  "\<not> conforms (fst (promiseSource [Reject (Str ''late'')] id SUBSCRIBE quiet_sink 0 [] settled)) \<and>
   \<not> conforms (fst (promiseSource [Fulfil (Num 1)] id SUBSCRIBE
                     (dispose_on_next logging_fns (Suc 0)) 0 [] fresh)) \<and>
   \<not> conforms (fst (promiseSource twice_fulfilled id SUBSCRIBE quiet_sink 0 [] fresh)) \<and>
   \<not> conforms (fst (asyncIterableSource (Suc (Suc 0)) (single_async (Num 1)) id SUBSCRIBE
                     quiet_sink 0 [] settled)) \<and>
   \<not> conforms (fst (symbolObservableSource closure_fns (Suc 0) 0 0 (ObservableLike twice_failing) id
                     SUBSCRIBE quiet_sink 0 [] fresh)) \<and>
   \<not> conforms (fst (symbolObservableSource closure_fns (Suc (Suc 0)) 0 0 (ObservableLike twice_failing)
                     id SUBSCRIBE quiet_sink 0 [] settled)) \<and>
   \<not> conforms (fst (iterableSource (Suc (Suc 0)) (closing_iterable logging_fns (Suc 0) 0) SUBSCRIBE
                     quiet_sink 0 [] fresh))"
  by (simp add: run_defs single_async_def twice_failing_def twice_fulfilled_def logging_fns_def
      closure_fns_def closing_iterable_def dispose_on_next_def store_defs)

text \<open>
  C1, amended. \<^verbatim>\<open>iterableSource\<close> delivers at most one terminal message and nothing after
  it, and, when the iterator's \<^verbatim>\<open>next()\<close> does not itself close the token, nothing while the
  token is closed. \<^verbatim>\<open>promiseSource\<close>, when the object's \<^verbatim>\<open>then\<close> calls back at most once, as
  a promise does, delivers at most one terminal message and nothing after it; a \<open>NEXT\<close> it
  delivers finds the token open; on fulfilment with the token closed it delivers nothing,
  and on fulfilment with the token open it delivers \<open>NEXT\<close> and then, when the sink has
  returned normally from that, \<open>COMPLETE\<close>. \<^verbatim>\<open>asyncIterableSource\<close>, when each object returned
  by \<^verbatim>\<open>next()\<close> calls back at most once, delivers at most one terminal message and nothing
  after it. \<^verbatim>\<open>symbolObservableSource\<close>, given an object with \<^verbatim>\<open>subscribe\<close>, delivers the
  external stream's notifications one to one and in order: a prefix of them in any case,
  all of them when the run returns normally.
\<close>

theorem adapters_protocol:
  "one_terminal_last (messages (fst (iterableSource n input t snk s [] h))) \<and>
   (pull_keeps_open input s \<longrightarrow> conforms (fst (iterableSource n input t snk s [] h))) \<and>
   (settles_once p \<longrightarrow>
      one_terminal_last (messages (fst (promiseSource p later t snk s [] h)))) \<and>
   list_all (\<lambda>d. fst (fst d) = NEXT \<longrightarrow> \<not> snd d) (fst (promiseSource p later t snk s [] h)) \<and>
   (closed (subs (later h) s) \<longrightarrow> fst (promiseSource [Fulfil v] later t snk s [] h) = []) \<and>
   (\<not> closed (subs (later h) s) \<and> snk NEXT v s (later h) = Some (None, h1) \<longrightarrow>
      messages (fst (promiseSource [Fulfil v] later SUBSCRIBE snk s [] h)) =
        [(NEXT, v), (COMPLETE, Undefined)]) \<and>
   ((\<forall>it. settles_once (async_next ainput it)) \<longrightarrow>
      one_terminal_last (messages (fst (asyncIterableSource n ainput later t snk s [] h)))) \<and>
   (\<exists>j. messages (fst (symbolObservableSource fns n k x (ObservableLike ob) later t snk s [] h)) =
         map of_notification (take j (during_subscribe ob @ afterwards ob))) \<and>
   (snd (symbolObservableSource fns n k x (ObservableLike ob) later SUBSCRIBE snk s [] h) =
      Some (None, h2) \<longrightarrow>
    messages (fst (symbolObservableSource fns n k x (ObservableLike ob) later SUBSCRIBE snk s [] h)) =
      map of_notification (during_subscribe ob @ afterwards ob))"
proof (intro conjI impI)
  show "one_terminal_last (messages (fst (iterableSource n input t snk s [] h)))"
    by (rule iterableSource_one_terminal)
  show "list_all (\<lambda>d. fst (fst d) = NEXT \<longrightarrow> \<not> snd d) (fst (promiseSource p later t snk s [] h))"
    by (rule promiseSource_next_open)
  show "\<exists>j. messages (fst (symbolObservableSource fns n k x (ObservableLike ob) later t snk s [] h)) =
         map of_notification (take j (during_subscribe ob @ afterwards ob))"
    by (rule symbolObservableSource_forwards)
next
  assume "pull_keeps_open input s"
  then have "delivered_open (fst (iterableSource n input t snk s [] h))"
    by (rule iterableSource_open)
  then show "conforms (fst (iterableSource n input t snk s [] h))"
    using iterableSource_one_terminal[of n input t snk s h] by (simp add: conforms_def)
next
  assume "settles_once p"
  then show "one_terminal_last (messages (fst (promiseSource p later t snk s [] h)))"
    by (intro nexts_first_terminal promiseSource_shape)
next
  assume "\<forall>it. settles_once (async_next ainput it)"
  then have "nexts_first (fst (asyncIterableSource n ainput later t snk s [] h))"
    by (intro asyncIterableSource_shape) blast
  then show "one_terminal_last (messages (fst (asyncIterableSource n ainput later t snk s [] h)))"
    by (rule nexts_first_terminal)
next
  assume "closed (subs (later h) s)"
  then show "fst (promiseSource [Fulfil v] later t snk s [] h) = []"
    by (rule promiseSource_closed)
next
  assume "snd (symbolObservableSource fns n k x (ObservableLike ob) later SUBSCRIBE snk s [] h) =
      Some (None, h2)"
  then show "messages (fst (symbolObservableSource fns n k x (ObservableLike ob) later SUBSCRIBE snk s [] h)) =
      map of_notification (during_subscribe ob @ afterwards ob)"
    by (rule symbolObservableSource_forwards_all)
next
  assume "\<not> closed (subs (later h) s) \<and> snk NEXT v s (later h) = Some (None, h1)"
  then show "messages (fst (promiseSource [Fulfil v] later SUBSCRIBE snk s [] h)) =
        [(NEXT, v), (COMPLETE, Undefined)]"
    by (simp add: promiseSource_def then_calls_single promise_onFulfilled_def send_def
        messages_def del: then_calls.simps)
qed

theorem adapters_protocol_witness:
  "conforms (fst (iterableSource (Suc (Suc 0)) (array_iterable [Num 1]) SUBSCRIBE quiet_sink 0 []
                    fresh)) \<and>
   messages (fst (iterableSource (Suc (Suc 0)) (array_iterable [Num 1]) SUBSCRIBE quiet_sink 0 []
                    fresh)) = [(NEXT, Num 1), (COMPLETE, Undefined)] \<and>
   one_terminal_last (messages (fst (promiseSource [Fulfil (Str ''x'')] id SUBSCRIBE quiet_sink 0 []
                    settled))) \<and>
   closed (subs (id settled) 0) \<and>
   fst (promiseSource [Fulfil (Str ''x'')] id SUBSCRIBE quiet_sink 0 [] settled) = [] \<and>
   messages (fst (promiseSource [Fulfil (Str ''x'')] id SUBSCRIBE quiet_sink 0 [] fresh)) =
     [(NEXT, Str ''x''), (COMPLETE, Undefined)] \<and>
   one_terminal_last (messages (fst (asyncIterableSource (Suc (Suc 0)) (single_async (Num 1)) id
                    SUBSCRIBE quiet_sink 0 [] settled))) \<and>
   snd (symbolObservableSource closure_fns (Suc (Suc 0)) 0 0 (ObservableLike twice_failing) id
          SUBSCRIBE quiet_sink 0 [] settled) =
     Some (None, settled\<lparr>trace := [Called 0]\<rparr>) \<and>
   messages (fst (symbolObservableSource closure_fns (Suc (Suc 0)) 0 0
                    (ObservableLike twice_failing) id SUBSCRIBE quiet_sink 0 [] settled)) =
     [(ERROR, Str ''a''), (ERROR, Str ''b'')]"
proof -
  have r: "snd (symbolObservableSource closure_fns (Suc (Suc 0)) 0 0 (ObservableLike twice_failing) id
          SUBSCRIBE quiet_sink 0 [] settled) =
     Some (None, settled\<lparr>trace := [Called 0]\<rparr>)"
    by (simp add: run_defs twice_failing_def closure_fns_def store_defs
        fun_upd_idem)
  have i: "during_subscribe twice_failing @ afterwards twice_failing =
      [OError (Str ''a''), OError (Str ''b'')]"
    by (simp add: twice_failing_def)
  have c: "closed (subs (id settled) 0)"
    by (simp add: store_defs)
  have o: "\<not> closed (subs (id fresh) 0) \<and> quiet_sink NEXT (Str ''x'') 0 (id fresh) = Some (None, fresh)"
    by (simp add: quiet_sink_def store_defs)
  have k: "pull_keeps_open (array_iterable [Num 1]) 0"
    by (simp add: pull_keeps_open_def array_iterable_def)
  have so: "settles_once [Fulfil (Str ''x'')]"
    by (simp add: settles_once_def)
  have sa: "\<forall>it. settles_once (async_next (single_async (Num 1)) it)"
    by (simp add: settles_once_def single_async_def)
  have m: "messages (fst (iterableSource (Suc (Suc 0)) (array_iterable [Num 1]) SUBSCRIBE quiet_sink 0 []
                    fresh)) = [(NEXT, Num 1), (COMPLETE, Undefined)]"
    by (simp add: run_defs array_iterable_def store_defs)
  note f = adapters_protocol[where n = "Suc (Suc 0)" and input = "array_iterable [Num 1]"
      and t = SUBSCRIBE and snk = quiet_sink and s = 0 and h = fresh
      and later = id and v = "Str ''x''" and ?h1.0 = fresh]
  from f o have fo: "messages (fst (promiseSource [Fulfil (Str ''x'')] id SUBSCRIBE quiet_sink 0 [] fresh)) =
     [(NEXT, Str ''x''), (COMPLETE, Undefined)]"
    by blast
  from f k have fc: "conforms (fst (iterableSource (Suc (Suc 0)) (array_iterable [Num 1]) SUBSCRIBE
      quiet_sink 0 [] fresh))"
    by blast
  note t = adapters_protocol[where n = "Suc (Suc 0)"
      and t = SUBSCRIBE and snk = quiet_sink and s = 0 and h = settled
      and p = "[Fulfil (Str ''x'')]" and later = id and v = "Str ''x''"
      and ainput = "single_async (Num 1)" and fns = closure_fns and k = 0 and x = 0
      and ob = twice_failing and ?h2.0 = "settled\<lparr>trace := [Called 0]\<rparr>"]
  from t r have "messages (fst (symbolObservableSource closure_fns (Suc (Suc 0)) 0 0
                    (ObservableLike twice_failing) id SUBSCRIBE quiet_sink 0 [] settled)) =
     map of_notification (during_subscribe twice_failing @ afterwards twice_failing)"
    by blast
  then have ms: "messages (fst (symbolObservableSource closure_fns (Suc (Suc 0)) 0 0
                    (ObservableLike twice_failing) id SUBSCRIBE quiet_sink 0 [] settled)) =
     [(ERROR, Str ''a''), (ERROR, Str ''b'')]"
    unfolding i by simp
  from t so have p1: "one_terminal_last (messages (fst (promiseSource [Fulfil (Str ''x'')] id SUBSCRIBE
      quiet_sink 0 [] settled)))"
    by blast
  from t c have p2: "fst (promiseSource [Fulfil (Str ''x'')] id SUBSCRIBE quiet_sink 0 [] settled) = []"
    by blast
  from t sa have a1: "one_terminal_last (messages (fst (asyncIterableSource (Suc (Suc 0))
      (single_async (Num 1)) id SUBSCRIBE quiet_sink 0 [] settled)))"
    by blast
  from fc m p1 c p2 fo a1 r ms show ?thesis by (intro conjI)
qed

section \<open>Claims about fromSource\<close>

text \<open>
  C9. \<^verbatim>\<open>fromSource\<close> tests the input's shape in the fixed precedence pass-through,
  deferred value, array-like, iterable, interop, async-iterable, and selects the adapter of
  the first shape that matches; when none of the six matches it throws the
  unconvertible-input error to its caller.
\<close>

theorem fromSource_first_match: "fromSource g input = first_match g input"
  by (simp add: fromSource_def first_match_def precedence_def)

theorem fromSource_first_match_witness:
  "fromSource shape_guards [''iterator'', ''length''] = Inr (OfSource [''iterator'', ''length''])
   \<and> fromSource shape_guards [''asyncIterator''] = Inr (AsyncIterableSource [''asyncIterator''])
   \<and> fromSource shape_guards [''toString''] =
       Inl (Error ''Unable to convert from input to Observable source'')"
  unfolding fromSource_first_match
  by (simp add: first_match_def precedence_def shape_guards_def)

end
